theory Spec2Isabelle
  imports Main
begin

section \<open>Python strings and the regular expressions of fix-imports.py\<close>

text \<open>
  A Python \<open>str\<close> is a sequence of Unicode code points, and \<open>len\<close> counts code points.
  It is modelled as a list of naturals; \<open>str\<close> embeds an ASCII literal.
\<close>

type_synonym pystr = "nat list"

definition str :: "string \<Rightarrow> pystr" where
  "str w = map of_char w"

definition sq :: char where
  "sq = CHR 0x27"

definition dq :: char where
  "dq = CHR 0x22"

text \<open>
  The character classes the two patterns use: \<open>\s\<close>, a set \<open>[...]\<close> and a negated set
  \<open>[^...]\<close>. For a \<open>str\<close> pattern \<open>\s\<close> is Unicode whitespace: the code points below are
  the ones for which CPython's \<open>re\<close> accepts \<open>\s\<close>.
\<close>

definition is_space :: "nat \<Rightarrow> bool" where
  "is_space c = ((9 \<le> c \<and> c \<le> 13) \<or> (28 \<le> c \<and> c \<le> 32) \<or> c = 133 \<or> c = 160
     \<or> c = 5760 \<or> (8192 \<le> c \<and> c \<le> 8202) \<or> c = 8232 \<or> c = 8233 \<or> c = 8239
     \<or> c = 8287 \<or> c = 12288)"

datatype cls = Space | OneOf pystr | NoneOf pystr

fun in_cls :: "cls \<Rightarrow> nat \<Rightarrow> bool" where
  "in_cls Space c = is_space c"
| "in_cls (OneOf cs) c = (c \<in> set cs)"
| "in_cls (NoneOf cs) c = (c \<notin> set cs)"

text \<open>
  The fragment of the regular expression language that the source's patterns are written
  in: a literal character, one character of a class, the greedy \<open>+\<close> and the lazy \<open>*?\<close>
  over a class, a numbered capture group and concatenation.
\<close>

datatype rx = Eps | Chr nat | In cls | Plus cls | StarLazy cls | Grp nat rx | Seq rx rx

type_synonym groups = "nat \<rightharpoonup> pystr"

text \<open>
  The backtracking matcher as a list of successes. \<open>ms r (s, g)\<close> lists every way in which
  \<open>r\<close> matches a prefix of \<open>s\<close>, as the rest of the input and the groups captured, in the
  order in which the backtracking engine of \<open>re\<close> tries them: the greedy \<open>+\<close> the longest
  run first, the lazy \<open>*?\<close> the shortest first, and a concatenation every continuation of
  the first alternative before the second alternative.
\<close>

fun ms :: "rx \<Rightarrow> pystr \<times> groups \<Rightarrow> (pystr \<times> groups) list" where
  "ms Eps st = [st]"
| "ms (Chr c) (s, g) = (case s of [] \<Rightarrow> [] | x # xs \<Rightarrow> if x = c then [(xs, g)] else [])"
| "ms (In k) (s, g) = (case s of [] \<Rightarrow> [] | x # xs \<Rightarrow> if in_cls k x then [(xs, g)] else [])"
| "ms (Plus k) (s, g) =
     map (\<lambda>i. (drop i s, g)) (rev [1 ..< Suc (length (takeWhile (in_cls k) s))])"
| "ms (StarLazy k) (s, g) =
     map (\<lambda>i. (drop i s, g)) [0 ..< Suc (length (takeWhile (in_cls k) s))]"
| "ms (Grp n r) (s, g) =
     map (\<lambda>(s', g'). (s', g'(n \<mapsto> take (length s - length s') s))) (ms r (s, g))"
| "ms (Seq a b) st = concat (map (ms b) (ms a st))"

definition lit :: "string \<Rightarrow> rx" where
  "lit w = foldr (\<lambda>c r. Seq (Chr (of_char c)) r) w Eps"

definition seqs :: "rx list \<Rightarrow> rx" where
  "seqs rs = foldr Seq rs Eps"

text \<open>The match that \<open>re\<close> reports at a position is the first success.\<close>

definition match_here :: "rx \<Rightarrow> pystr \<Rightarrow> (pystr \<times> groups) option" where
  "match_here r s = (case ms r (s, Map.empty) of [] \<Rightarrow> None | m # _ \<Rightarrow> Some m)"

text \<open>
  A replacement template is literal text and group references \<open>\1\<close>, \<open>\2\<close>; a group that
  did not take part in the match expands to the empty string.
\<close>

datatype titem = TLit string | TRef nat

definition expand :: "titem list \<Rightarrow> groups \<Rightarrow> pystr" where
  "expand t g = concat (map (\<lambda>i. case i of TLit w \<Rightarrow> str w
      | TRef n \<Rightarrow> (case g n of None \<Rightarrow> [] | Some x \<Rightarrow> x)) t)"

text \<open>
  \<open>re.sub(pattern, replacement, content)\<close>: scan from the left; at a position where the
  pattern matches, emit the expanded replacement and go on after the match; elsewhere copy
  one character. An empty match emits the replacement and then copies one character (neither
  pattern of the source can match the empty string).
\<close>

function sub :: "rx \<Rightarrow> titem list \<Rightarrow> pystr \<Rightarrow> pystr" where
  "sub r t s =
     (case match_here r s of
        Some (s', g) \<Rightarrow>
          if length s' < length s then expand t g @ sub r t s'
          else expand t g @ (case s of [] \<Rightarrow> [] | c # cs \<Rightarrow> c # sub r t cs)
      | None \<Rightarrow> (case s of [] \<Rightarrow> [] | c # cs \<Rightarrow> c # sub r t cs))"
  by pat_completeness auto
termination
  by (relation "measure (\<lambda>(r, t, s). length s)") auto

subsection \<open>The two substitution rules\<close>

text \<open>
  \<^verbatim>\<open>(r"from\s+['\"]([^'\"]*?)\.js['\"]", r"from '\1'")\<close> and
  \<^verbatim>\<open>(r"import\s+([^'\"]*?)\s+from\s+['\"]([^'\"]*?)\.js['\"]", r"import \1 from '\2'")\<close>
\<close>

definition quotes :: pystr where
  "quotes = str [sq, dq]"

definition pattern1 :: rx where
  "pattern1 = seqs [lit ''from'', Plus Space, In (OneOf quotes),
     Grp 1 (StarLazy (NoneOf quotes)), lit ''.js'', In (OneOf quotes)]"

definition replacement1 :: "titem list" where
  "replacement1 = [TLit ''from '', TLit [sq], TRef 1, TLit [sq]]"

definition pattern2 :: rx where
  "pattern2 = seqs [lit ''import'', Plus Space, Grp 1 (StarLazy (NoneOf quotes)), Plus Space,
     lit ''from'', Plus Space, In (OneOf quotes),
     Grp 2 (StarLazy (NoneOf quotes)), lit ''.js'', In (OneOf quotes)]"

definition replacement2 :: "titem list" where
  "replacement2 = [TLit ''import '', TRef 1, TLit '' from '', TLit [sq], TRef 2, TLit [sq]]"

definition patterns :: "(rx \<times> titem list) list" where
  "patterns = [(pattern1, replacement1), (pattern2, replacement2)]"

text \<open>
  \<^verbatim>\<open>for pattern, replacement in patterns: content = re.sub(pattern, replacement, content)\<close>
\<close>

definition rewrite :: "pystr \<Rightarrow> pystr" where
  "rewrite content =
     foldl (\<lambda>c (pattern, replacement). sub pattern replacement c) content patterns"

text \<open>A pattern occurs in a text when it matches at some position of it.\<close>

definition occurs :: "rx \<Rightarrow> pystr \<Rightarrow> bool" where
  "occurs r s = (\<exists>i \<in> set [0 ..< Suc (length s)]. match_here r (drop i s) \<noteq> None)"

section \<open>Files, the console and the driver\<close>

text \<open>
  The world the script runs in. \<open>read_text p\<close> is what
  \<^verbatim>\<open>open(p, 'r', encoding='utf-8').read()\<close> does: \<open>Inl msg\<close> when it raises (missing file,
  permission, invalid UTF-8), \<open>Inr content\<close> with the decoded text otherwise, which is
  what the script compares and rewrites. \<open>write_outcome p\<close> is what opening
  \<open>p\<close> for writing and writing to it will do. \<open>stdout_encodes c\<close> says whether the
  encoding of the standard output has the code point \<open>c\<close> beyond ASCII, and
  \<open>encode_error line\<close> is the text of the \<open>UnicodeEncodeError\<close> that printing a line
  without an encoding raises. \<open>stdout\<close> collects the printed lines.
  \<open>writes\<close> is a write-spy: one entry for every time the script opens a file for writing,
  with the content it is about to write.
  An exception is represented by its message, \<open>str(e)\<close>.
\<close>

type_synonym path = pystr

datatype write_outcome = WriteOk | OpenRaises pystr | WriteRaises pystr pystr

record world =
  root_exists :: bool
  rglob :: "pystr \<Rightarrow> path list"
  read_text :: "path \<Rightarrow> pystr + pystr"
  write_outcome :: "path \<Rightarrow> write_outcome"
  stdout_encodes :: "nat \<Rightarrow> bool"
  encode_error :: "pystr \<Rightarrow> pystr"
  stdout :: "pystr list"
  writes :: "(path \<times> pystr) list"

text \<open>
  \<open>print(line)\<close> encodes the line for the standard output and raises
  \<open>UnicodeEncodeError\<close>, before anything is written, when the line holds a code point
  that the encoding lacks (a file name with a non-ASCII character on an ASCII console, or
  with an undecodable byte, which Python keeps as a lone surrogate). ASCII is in every
  encoding that CPython gives the standard output. \<open>Inl\<close> is the exception raised.
\<close>

definition printable :: "world \<Rightarrow> pystr \<Rightarrow> bool" where
  "printable w line = list_all (\<lambda>c. c < 128 \<or> stdout_encodes w c) line"

definition print :: "world \<Rightarrow> pystr \<Rightarrow> pystr + world" where
  "print w line =
     (if printable w line then Inr (w\<lparr>stdout := stdout w @ [line]\<rparr>)
      else Inl (encode_error w line))"

text \<open>
  \<^verbatim>\<open>with open(file_path, 'w', encoding='utf-8') as f: f.write(content)\<close>.
  When \<open>open\<close> raises, the file is as it was; when \<open>write\<close> raises, the file has been
  truncated by \<open>open\<close> and holds whatever part was written (\<open>left\<close>).
\<close>

definition write_text :: "world \<Rightarrow> path \<Rightarrow> pystr \<Rightarrow> pystr \<times> world + world" where
  "write_text w p content =
     (case write_outcome w p of
        OpenRaises msg \<Rightarrow> Inl (msg, w\<lparr>writes := writes w @ [(p, content)]\<rparr>)
      | WriteRaises msg left \<Rightarrow>
          Inl (msg, w\<lparr>read_text := (read_text w)(p := Inr left),
                       writes := writes w @ [(p, content)]\<rparr>)
      | WriteOk \<Rightarrow>
          Inr (w\<lparr>read_text := (read_text w)(p := Inr content),
                  writes := writes w @ [(p, content)]\<rparr>))"

definition fixed_line :: "path \<Rightarrow> pystr" where
  "fixed_line p = str ''Fixed imports in: '' @ p"

definition error_line :: "path \<Rightarrow> pystr \<Rightarrow> pystr" where
  "error_line p msg = str ''Error processing '' @ p @ str '': '' @ msg"

text \<open>
  The handler \<^verbatim>\<open>except Exception as e: print(f"Error processing {file_path}: {e}"); return False\<close>.
  Its own \<open>print\<close> is outside every \<open>try\<close>: when it raises, the exception leaves
  \<open>fix_imports_in_file\<close>. The result is the world and either the exception that
  leaves the function (\<open>Inl\<close>) or the value returned (\<open>Inr\<close>).
\<close>

definition except_handler :: "world \<Rightarrow> path \<Rightarrow> pystr \<Rightarrow> world \<times> (pystr + bool)" where
  "except_handler w file_path e =
     (case print w (error_line file_path e) of
        Inl e' \<Rightarrow> (w, Inl e')
      | Inr w' \<Rightarrow> (w', Inr False))"

text \<open>
  \<open>fix_imports_in_file\<close>: the whole body is inside \<^verbatim>\<open>try: ... except Exception as e\<close>,
  so a failing read, a failing write and a failing \<open>print\<close> of the line
  \<^verbatim>\<open>Fixed imports in: ...\<close> all end in the handler.
\<close>

definition fix_imports_in_file :: "world \<Rightarrow> path \<Rightarrow> world \<times> (pystr + bool)" where
  "fix_imports_in_file w file_path =
     (case read_text w file_path of
        Inl e \<Rightarrow> except_handler w file_path e
      | Inr content \<Rightarrow>
          let original_content = content;
              content = rewrite content
          in if content \<noteq> original_content then
               (case write_text w file_path content of
                  Inl (e, w') \<Rightarrow> except_handler w' file_path e
                | Inr w' \<Rightarrow>
                    (case print w' (fixed_line file_path) of
                       Inl e \<Rightarrow> except_handler w' file_path e
                     | Inr w'' \<Rightarrow> (w'', Inr True)))
             else (w, Inr False))"

text \<open>Decimal rendering of the counts in the f-strings.\<close>

fun digits :: "nat \<Rightarrow> pystr" where
  "digits n = (if n < 10 then [48 + n] else digits (n div 10) @ [48 + n mod 10])"

definition show_int :: "int \<Rightarrow> pystr" where
  "show_int i = (if i < 0 then 45 # digits (nat (- i)) else digits (nat i))"

definition project_root :: path where
  "project_root = str ''/home/ty/Repositories/ai_workspace/esaf-framework/src''"

definition not_found_line :: pystr where
  "not_found_line = str ''Project root not found: '' @ project_root"

definition found_line :: "int \<Rightarrow> pystr" where
  "found_line n = str ''Found '' @ show_int n @ str '' TypeScript files''"

definition summary_line :: "int \<Rightarrow> pystr" where
  "summary_line n = str ''Fixed imports in '' @ show_int n @ str '' files''"

text \<open>
  \<^verbatim>\<open>for ext in ['*.ts', '*.tsx']: ts_files.extend(project_root.rglob(ext))\<close>
\<close>

definition find_ts_files :: "world \<Rightarrow> path list" where
  "find_ts_files w = concat (map (rglob w) [str ''*.ts'', str ''*.tsx''])"

text \<open>
  \<^verbatim>\<open>for file_path in ts_files: if fix_imports_in_file(file_path): fixed_count += 1\<close>.
  The loop has no handler: an exception that leaves \<open>fix_imports_in_file\<close> ends it.
\<close>

fun fix_all :: "world \<Rightarrow> path list \<Rightarrow> int \<Rightarrow> world \<times> (pystr + int)" where
  "fix_all w [] fixed_count = (w, Inr fixed_count)"
| "fix_all w (file_path # ts_files) fixed_count =
     (case fix_imports_in_file w file_path of
        (w', Inl e) \<Rightarrow> (w', Inl e)
      | (w', Inr fixed) \<Rightarrow>
          fix_all w' ts_files (if fixed then fixed_count + 1 else fixed_count))"

text \<open>
  \<open>main\<close>: the world after the run and either the exception that ends the program
  (\<open>Inl\<close>) or a normal return (\<open>Inr ()\<close>).
\<close>

definition main :: "world \<Rightarrow> world \<times> (pystr + unit)" where
  "main w =
     (if \<not> root_exists w then
        (case print w not_found_line of
           Inl e \<Rightarrow> (w, Inl e)
         | Inr w' \<Rightarrow> (w', Inr ()))
      else
        let ts_files = find_ts_files w
        in case print w (found_line (int (length ts_files))) of
             Inl e \<Rightarrow> (w, Inl e)
           | Inr w1 \<Rightarrow>
               (case fix_all w1 ts_files 0 of
                  (w2, Inl e) \<Rightarrow> (w2, Inl e)
                | (w2, Inr fixed_count) \<Rightarrow>
                    (case print w2 (summary_line fixed_count) of
                       Inl e \<Rightarrow> (w2, Inl e)
                     | Inr w3 \<Rightarrow> (w3, Inr ()))))"

section \<open>Notions used in the statements\<close>

text \<open>A quote character is one of the two characters of the class \<^verbatim>\<open>['\"]\<close>.\<close>

definition is_quote :: "nat \<Rightarrow> bool" where
  "is_quote c = (c = 39 \<or> c = 34)"

text \<open>
  The part that both patterns end with, \<^verbatim>\<open>from\s+['\"]([^'\"]*?)\.js['\"]\<close>, with the number
  of its group left open: group 1 in the first pattern, group 2 in the second.
\<close>

definition from_part :: "nat \<Rightarrow> rx" where
  "from_part n = seqs [lit ''from'', Plus Space, In (OneOf quotes),
     Grp n (StarLazy (NoneOf quotes)), lit ''.js'', In (OneOf quotes)]"

text \<open>\<open>ends_with s suffix\<close> is Python's \<open>s.endswith(suffix)\<close>.\<close>

definition ends_with :: "pystr \<Rightarrow> pystr \<Rightarrow> bool" where
  "ends_with s suffix = (length suffix \<le> length s \<and> drop (length s - length suffix) s = suffix)"

text \<open>
  \<open>ends_in_from_space p\<close>: the text ends in the word \<open>from\<close> followed by at least one
  whitespace character.
\<close>

definition ends_in_from_space :: "pystr \<Rightarrow> bool" where
  "ends_in_from_space p =
     (let r = dropWhile is_space (rev p) in r \<noteq> rev p \<and> take 4 r = rev (str ''from''))"

text \<open>
  The shape that a match of either pattern has: text free of quote characters, the word
  \<open>from\<close>, whitespace, a quote character, a value free of quote characters that ends in
  \<open>.js\<close>, a quote character; \<open>rest\<close> is what follows the match.
\<close>

definition lit_shape :: "pystr \<Rightarrow> pystr \<Rightarrow> bool" where
  "lit_shape s rest =
     (\<exists>u w a y b. s = u @ str ''from'' @ w @ a # y @ str ''.js'' @ b # rest \<and>
        (\<forall>c \<in> set u. \<not> is_quote c) \<and> w \<noteq> [] \<and> (\<forall>c \<in> set w. is_space c) \<and>
        is_quote a \<and> is_quote b \<and> (\<forall>c \<in> set y. \<not> is_quote c))"

text \<open>
  A world for concrete runs: four TypeScript files, one with a fixable import, one with
  nothing to fix, one that cannot be read and one that cannot be opened for writing; the
  standard output encodes every code point.
\<close>

definition example_world :: world where
  "example_world =
     \<lparr>root_exists = True,
      rglob = (\<lambda>ext. if ext = str ''*.ts'' then [str ''a.ts'', str ''b.ts'', str ''c.ts'', str ''d.ts'']
                      else []),
      read_text = (\<lambda>p. if p = str ''a.ts'' then Inr (str (''from '' @ [dq] @ ''./foo.js'' @ [dq]))
                        else if p = str ''b.ts'' then Inr (str ''let x = 1;'')
                        else if p = str ''d.ts'' then Inr (str (''from '' @ [sq] @ ''./bar.js'' @ [sq]))
                        else Inl (str ''Permission denied'')),
      write_outcome = (\<lambda>p. if p = str ''d.ts'' then OpenRaises (str ''Read-only file system'')
                            else WriteOk),
      stdout_encodes = (\<lambda>c. True),
      encode_error = (\<lambda>line. str ''codec cannot encode character''),
      stdout = [],
      writes = []\<rparr>"


text \<open>
  A world whose standard output is ASCII, with two TypeScript files: one named
  \<open>caf?.ts\<close> with the code point 233 (e with an acute accent) for the fourth character,
  which cannot be read, and \<open>a.ts\<close>, which has a fixable import.
\<close>

definition cafe_ts :: path where
  "cafe_ts = str ''caf'' @ [233] @ str ''.ts''"

definition ascii_world :: world where
  "ascii_world =
     \<lparr>root_exists = True,
      rglob = (\<lambda>ext. if ext = str ''*.ts'' then [cafe_ts, str ''a.ts''] else []),
      read_text = (\<lambda>p. if p = str ''a.ts'' then Inr (str (''from '' @ [dq] @ ''./foo.js'' @ [dq]))
                        else Inl (str ''Permission denied'')),
      write_outcome = (\<lambda>p. WriteOk),
      stdout_encodes = (\<lambda>c. False),
      encode_error = (\<lambda>line. str ''ordinal not in range(128)''),
      stdout = [],
      writes = []\<rparr>"

section \<open>The matcher\<close>

lemma ms_suffix: "(s', g') \<in> set (ms r (s, g)) \<Longrightarrow> \<exists>w. s = w @ s'"
proof (induction r arbitrary: s g s' g')
  case (Plus k)
  then obtain i where "s' = drop i s" by auto
  then have "s = take i s @ s'" by simp
  then show ?case by blast
next
  case (StarLazy k)
  then obtain i where "s' = drop i s" by auto
  then have "s = take i s @ s'" by simp
  then show ?case by blast
next
  case (Seq a b)
  then obtain t h where 1: "(t, h) \<in> set (ms a (s, g))" and 2: "(s', g') \<in> set (ms b (t, h))"
    by auto
  from Seq.IH(1)[OF 1] Seq.IH(2)[OF 2] show ?case by auto
qed (auto split: list.splits if_splits)

lemma in_ms_Chr: "(s', g') \<in> set (ms (Chr c) (s, g)) \<longleftrightarrow> s = c # s' \<and> g' = g"
  by (auto split: list.splits)

lemma in_ms_In: "(s', g') \<in> set (ms (In k) (s, g)) \<longleftrightarrow> (\<exists>x. s = x # s' \<and> in_cls k x \<and> g' = g)"
  by (auto split: list.splits)

lemma take_le_takeWhile:
  assumes "i \<le> length (takeWhile P s)"
  shows "\<forall>x \<in> set (take i s). P x"
proof -
  have "take i s = take i (takeWhile P s @ dropWhile P s)"
    by (simp only: takeWhile_dropWhile_id)
  also have "\<dots> = take i (takeWhile P s)"
    using assms by (simp del: takeWhile_dropWhile_id)
  finally show ?thesis by (metis in_set_takeD set_takeWhileD)
qed

lemma upt_Suc_set: "set [0 ..< Suc n] = {i. i \<le> n}"
  unfolding set_upt by (simp add: set_eq_iff less_Suc_eq_le)

lemma upt_1_Suc_set: "set (rev [1 ..< Suc n]) = {i. 1 \<le> i \<and> i \<le> n}"
  unfolding set_rev set_upt by (simp add: set_eq_iff less_Suc_eq_le)

lemma set_ms_StarLazy:
  "set (ms (StarLazy k) (s, g)) = (\<lambda>i. (drop i s, g)) ` {i. i \<le> length (takeWhile (in_cls k) s)}"
  by (simp only: ms.simps set_map upt_Suc_set)

lemma set_ms_Plus:
  "set (ms (Plus k) (s, g)) = (\<lambda>i. (drop i s, g)) ` {i. 1 \<le> i \<and> i \<le> length (takeWhile (in_cls k) s)}"
  by (simp only: ms.simps set_map upt_1_Suc_set)

lemma in_ms_StarLazy:
  "(s', g') \<in> set (ms (StarLazy k) (s, g)) \<longleftrightarrow>
     (\<exists>w. (\<forall>x \<in> set w. in_cls k x) \<and> s = w @ s' \<and> g' = g)"
proof
  assume "(s', g') \<in> set (ms (StarLazy k) (s, g))"
  then obtain i where i: "i \<le> length (takeWhile (in_cls k) s)" and s': "s' = drop i s" and g: "g' = g"
    unfolding set_ms_StarLazy by auto
  have "\<forall>x \<in> set (take i s). in_cls k x"
    using take_le_takeWhile[OF i] .
  moreover have "s = take i s @ s'" using s' by simp
  ultimately show "\<exists>w. (\<forall>x \<in> set w. in_cls k x) \<and> s = w @ s' \<and> g' = g" using g by blast
next
  assume "\<exists>w. (\<forall>x \<in> set w. in_cls k x) \<and> s = w @ s' \<and> g' = g"
  then obtain w where w: "\<forall>x \<in> set w. in_cls k x" "s = w @ s'" "g' = g" by blast
  then have "takeWhile (in_cls k) s = w @ takeWhile (in_cls k) s'"
    by (simp add: takeWhile_append2)
  then have "length w \<le> length (takeWhile (in_cls k) s)" by simp
  moreover have "drop (length w) s = s'" using w by simp
  ultimately show "(s', g') \<in> set (ms (StarLazy k) (s, g))"
    unfolding set_ms_StarLazy using w(3) by (auto simp: image_iff intro!: exI[of _ "length w"])
qed

lemma in_ms_Plus:
  "(s', g') \<in> set (ms (Plus k) (s, g)) \<longleftrightarrow>
     (\<exists>w. w \<noteq> [] \<and> (\<forall>x \<in> set w. in_cls k x) \<and> s = w @ s' \<and> g' = g)"
proof
  assume "(s', g') \<in> set (ms (Plus k) (s, g))"
  then obtain i where i: "i \<le> length (takeWhile (in_cls k) s)" and i1: "1 \<le> i"
    and s': "s' = drop i s" and g: "g' = g"
    unfolding set_ms_Plus by auto
  have "\<forall>x \<in> set (take i s). in_cls k x"
    using take_le_takeWhile[OF i] .
  moreover have "s = take i s @ s'" using s' by simp
  moreover have "take i s \<noteq> []"
  proof
    assume "take i s = []"
    then have "i = 0 \<or> s = []" by simp
    with i i1 show False by auto
  qed
  ultimately show "\<exists>w. w \<noteq> [] \<and> (\<forall>x \<in> set w. in_cls k x) \<and> s = w @ s' \<and> g' = g" using g by blast
next
  assume "\<exists>w. w \<noteq> [] \<and> (\<forall>x \<in> set w. in_cls k x) \<and> s = w @ s' \<and> g' = g"
  then obtain w where w: "w \<noteq> []" "\<forall>x \<in> set w. in_cls k x" "s = w @ s'" "g' = g" by blast
  then have "takeWhile (in_cls k) s = w @ takeWhile (in_cls k) s'"
    by (simp add: takeWhile_append2)
  then have "length w \<le> length (takeWhile (in_cls k) s)" by simp
  moreover have "drop (length w) s = s'" using w by simp
  moreover have "1 \<le> length w" using w(1) by (cases w) auto
  ultimately show "(s', g') \<in> set (ms (Plus k) (s, g))"
    unfolding set_ms_Plus using w(4) by (auto simp: image_iff intro!: exI[of _ "length w"])
qed

lemma in_ms_Grp:
  "(s', g') \<in> set (ms (Grp n r) (s, g)) \<longleftrightarrow>
     (\<exists>h w. (s', h) \<in> set (ms r (s, g)) \<and> s = w @ s' \<and> g' = h(n \<mapsto> w))"
proof
  assume "(s', g') \<in> set (ms (Grp n r) (s, g))"
  then obtain h where h: "(s', h) \<in> set (ms r (s, g))"
    and g': "g' = h(n \<mapsto> take (length s - length s') s)" by auto
  from ms_suffix[OF h] obtain w where w: "s = w @ s'" by blast
  then have "take (length s - length s') s = w" by simp
  with g' have "g' = h(n \<mapsto> w)" by simp
  with h w have "(s', h) \<in> set (ms r (s, g)) \<and> s = w @ s' \<and> g' = h(n \<mapsto> w)" by simp
  then show "\<exists>h w. (s', h) \<in> set (ms r (s, g)) \<and> s = w @ s' \<and> g' = h(n \<mapsto> w)"
    by (intro exI)
next
  assume "\<exists>h w. (s', h) \<in> set (ms r (s, g)) \<and> s = w @ s' \<and> g' = h(n \<mapsto> w)"
  then obtain h w where h: "(s', h) \<in> set (ms r (s, g))" and w: "s = w @ s'" and g': "g' = h(n \<mapsto> w)"
    by blast
  from w have "take (length s - length s') s = w" by simp
  with g' have "(s', g') = (\<lambda>(s', g'). (s', g'(n \<mapsto> take (length s - length s') s))) (s', h)"
    by simp
  with h show "(s', g') \<in> set (ms (Grp n r) (s, g))"
    unfolding ms.simps set_map by (rule image_eqI[rotated])
qed

lemma in_ms_Seq:
  "(s', g') \<in> set (ms (Seq a b) (s, g)) \<longleftrightarrow>
     (\<exists>t h. (t, h) \<in> set (ms a (s, g)) \<and> (s', g') \<in> set (ms b (t, h)))"
  by auto

lemma in_ms_Eps: "(s', g') \<in> set (ms Eps (s, g)) \<longleftrightarrow> s' = s \<and> g' = g"
  by auto

lemma in_ms_lit: "(s', g') \<in> set (ms (lit w) (s, g)) \<longleftrightarrow> s = str w @ s' \<and> g' = g"
proof (induction w arbitrary: s)
  case Nil
  show ?case by (auto simp add: lit_def str_def)
next
  case (Cons c w)
  have "lit (c # w) = Seq (Chr (of_char c)) (lit w)" by (simp add: lit_def)
  then show ?case
    using Cons by (auto simp add: in_ms_Seq in_ms_Chr str_def simp del: ms.simps)
qed

text \<open>
  Locality: the matches of a pattern in \<open>s @ t\<close> that end inside \<open>s\<close> are the matches
  of the pattern in \<open>s\<close>, in the same order.
\<close>

lemma concat_map_filter_irrelevant:
  assumes "\<And>x. x \<in> set xs \<Longrightarrow> \<not> P x \<Longrightarrow> f x = []"
  shows "concat (map f xs) = concat (map f (filter P xs))"
  using assms by (induction xs) auto

lemma filter_concat_map: "filter P (concat (map f xs)) = concat (map (\<lambda>x. filter P (f x)) xs)"
  by (induction xs) auto

lemma filter_le_upt: "filter (\<lambda>i. i \<le> m) [a ..< Suc n] = [a ..< Suc (min n m)]"
proof (induction n)
  case 0
  then show ?case by (cases a) auto
next
  case (Suc n)
  show ?case
  proof (cases "a \<le> Suc n")
    case True
    then have "[a ..< Suc (Suc n)] = [a ..< Suc n] @ [Suc n]" by simp
    then have "filter (\<lambda>i. i \<le> m) [a ..< Suc (Suc n)]
        = [a ..< Suc (min n m)] @ (if Suc n \<le> m then [Suc n] else [])"
      using Suc by simp
    also have "\<dots> = [a ..< Suc (min (Suc n) m)]"
    proof (cases "Suc n \<le> m")
      case True
      then have "min n m = n" "min (Suc n) m = Suc n" by simp_all
      with \<open>a \<le> Suc n\<close> True show ?thesis by simp
    next
      case False
      then have "min n m = m" "min (Suc n) m = m" by simp_all
      with False show ?thesis by simp
    qed
    finally show ?thesis .
  next
    case False
    then have "[a ..< Suc (Suc n)] = []" "[a ..< Suc (min (Suc n) m)] = []" by simp_all
    then show ?thesis by simp
  qed
qed

lemma takeWhile_append_length:
  "min (length (takeWhile P (s @ t))) (length s) = length (takeWhile P s)"
proof (cases "\<forall>x \<in> set s. P x")
  case True
  then have e: "takeWhile P (s @ t) = s @ takeWhile P t" "takeWhile P s = s"
    by (simp_all add: takeWhile_append2)
  show ?thesis unfolding e by simp
next
  case False
  then obtain x where "x \<in> set s" "\<not> P x" by blast
  then have "takeWhile P (s @ t) = takeWhile P s" by (rule takeWhile_append1)
  moreover have "length (takeWhile P s) \<le> length s" by (rule length_takeWhile_le)
  ultimately show ?thesis by simp
qed

lemma ms_length_le: "(x, h) \<in> set (ms r (s, g)) \<Longrightarrow> length x \<le> length s"
  using ms_suffix[of x h r s g] by auto

lemma ms_runs_append:
  assumes "set is \<subseteq> {i. i \<le> length (s @ t)}"
  shows "filter (\<lambda>(x, h). length t \<le> length x) (map (\<lambda>i. (drop i (s @ t), g)) is)
     = map (\<lambda>(x, h). (x @ t, h)) (map (\<lambda>i. (drop i s, g)) (filter (\<lambda>i. i \<le> length s) is))"
  using assms
proof (induction "is")
  case Nil
  then show ?case by simp
next
  case (Cons i "is")
  then have "i \<le> length s + length t" by simp
  then have "length t \<le> length (drop i (s @ t)) \<longleftrightarrow> i \<le> length s" by auto
  with Cons show ?case by auto
qed

lemma ms_append_filter:
  "filter (\<lambda>(x, h). length t \<le> length x) (ms r (s @ t, g))
     = map (\<lambda>(x, h). (x @ t, h)) (ms r (s, g))"
proof (induction r arbitrary: s g)
  case Eps
  show ?case by simp
next
  case (Chr c)
  show ?case by (cases s; cases t) auto
next
  case (In k)
  show ?case by (cases s; cases t) auto
next
  case (Plus k)
  let ?n' = "length (takeWhile (in_cls k) (s @ t))"
  have sub: "set (rev [1 ..< Suc ?n']) \<subseteq> {i. i \<le> length (s @ t)}"
    using length_takeWhile_le[of "in_cls k" "s @ t"] by auto
  have "filter (\<lambda>i. i \<le> length s) (rev [1 ..< Suc ?n']) = rev [1 ..< Suc (length (takeWhile (in_cls k) s))]"
    unfolding rev_filter[symmetric] filter_le_upt takeWhile_append_length ..
  with ms_runs_append[OF sub, of g] show ?case by (simp only: ms.simps)
next
  case (StarLazy k)
  let ?n' = "length (takeWhile (in_cls k) (s @ t))"
  have sub: "set [0 ..< Suc ?n'] \<subseteq> {i. i \<le> length (s @ t)}"
    using length_takeWhile_le[of "in_cls k" "s @ t"] by auto
  have "filter (\<lambda>i. i \<le> length s) [0 ..< Suc ?n'] = [0 ..< Suc (length (takeWhile (in_cls k) s))]"
    unfolding filter_le_upt takeWhile_append_length ..
  with ms_runs_append[OF sub, of g] show ?case by (simp only: ms.simps)
next
  case (Grp n r)
  let ?F = "\<lambda>(x, h). length t \<le> length x"
  let ?G = "\<lambda>u (x, h). (x, h(n \<mapsto> take (length u - length x) u))"
  have "filter ?F (ms (Grp n r) (s @ t, g)) = map (?G (s @ t)) (filter ?F (ms r (s @ t, g)))"
    by (simp add: filter_map comp_def case_prod_unfold)
  also have "\<dots> = map (?G (s @ t)) (map (\<lambda>(x, h). (x @ t, h)) (ms r (s, g)))"
    by (simp only: Grp)
  also have "\<dots> = map (\<lambda>(x, h). (x @ t, h)) (map (?G s) (ms r (s, g)))"
  proof -
    have "\<And>x h. (x, h) \<in> set (ms r (s, g)) \<Longrightarrow>
        take (length (s @ t) - length (x @ t)) (s @ t) = take (length s - length x) s"
      by simp
    then show ?thesis by (auto simp: case_prod_unfold)
  qed
  finally show ?case by simp
next
  case (Seq a b)
  let ?F = "\<lambda>(x, h). length t \<le> length x"
  let ?A = "\<lambda>(x, h). (x @ t, h)"
  have irrelevant: "\<And>y. y \<in> set (ms a (s @ t, g)) \<Longrightarrow> \<not> ?F y \<Longrightarrow> filter ?F (ms b y) = []"
  proof -
    fix y assume "y \<in> set (ms a (s @ t, g))" "\<not> ?F y"
    then have short: "length (fst y) < length t" by (cases y) auto
    have "\<And>z. z \<in> set (ms b y) \<Longrightarrow> \<not> ?F z"
    proof -
      fix z assume "z \<in> set (ms b y)"
      then have "(fst z, snd z) \<in> set (ms b (fst y, snd y))" by simp
      from ms_length_le[OF this] short show "\<not> ?F z" by (cases z) auto
    qed
    then show "filter ?F (ms b y) = []" by (simp add: filter_empty_conv)
  qed
  have "filter ?F (ms (Seq a b) (s @ t, g)) = concat (map (\<lambda>y. filter ?F (ms b y)) (ms a (s @ t, g)))"
    by (simp add: filter_concat_map)
  also have "\<dots> = concat (map (\<lambda>y. filter ?F (ms b y)) (filter ?F (ms a (s @ t, g))))"
    by (rule concat_map_filter_irrelevant) (rule irrelevant)
  also have "\<dots> = concat (map (\<lambda>y. filter ?F (ms b y)) (map ?A (ms a (s, g))))"
    by (simp only: Seq.IH(1))
  also have "\<dots> = concat (map (\<lambda>y. map ?A (ms b y)) (ms a (s, g)))"
  proof -
    have "\<And>y. filter ?F (ms b (?A y)) = map ?A (ms b y)"
    proof -
      fix y :: "pystr \<times> groups"
      obtain x h where "y = (x, h)" by (cases y)
      then show "filter ?F (ms b (?A y)) = map ?A (ms b y)" using Seq.IH(2)[of x h] by simp
    qed
    then show ?thesis by (simp add: comp_def)
  qed
  also have "\<dots> = map ?A (ms (Seq a b) (s, g))" by (simp add: map_concat comp_def)
  finally show ?case .
qed

section \<open>What the two patterns match\<close>

lemma in_quotes: "c \<in> set quotes \<longleftrightarrow> is_quote c"
  by (auto simp: quotes_def str_def sq_def dq_def is_quote_def)

lemma in_ms_from_part:
  "(s', g') \<in> set (ms (from_part n) (s, g)) \<longleftrightarrow>
     (\<exists>ws q x q'. s = str ''from'' @ ws @ q # x @ str ''.js'' @ q' # s' \<and> ws \<noteq> [] \<and>
        (\<forall>c \<in> set ws. is_space c) \<and> is_quote q \<and> is_quote q' \<and>
        (\<forall>c \<in> set x. \<not> is_quote c) \<and> g' = g(n \<mapsto> x))"
  unfolding from_part_def seqs_def foldr.simps o_apply id_apply
  apply (simp only: in_ms_Seq in_ms_lit in_ms_Plus in_ms_In in_ms_Grp in_ms_StarLazy in_ms_Eps
      in_cls.simps in_quotes)
  apply (rule iffI)
   apply (elim exE conjE)
   apply simp
   apply blast
  apply (elim exE conjE)
  apply simp
  apply blast
  done

lemma pattern1_from_part: "pattern1 = from_part 1"
  by (simp add: pattern1_def from_part_def)

lemma pattern2_from_part:
  "pattern2 = Seq (lit ''import'') (Seq (Plus Space) (Seq (Grp 1 (StarLazy (NoneOf quotes)))
     (Seq (Plus Space) (from_part 2))))"
  by (simp add: pattern2_def from_part_def seqs_def)

lemma in_ms_pattern1:
  "(s', g') \<in> set (ms pattern1 (s, g)) \<longleftrightarrow>
     (\<exists>ws q x q'. s = str ''from'' @ ws @ q # x @ str ''.js'' @ q' # s' \<and> ws \<noteq> [] \<and>
        (\<forall>c \<in> set ws. is_space c) \<and> is_quote q \<and> is_quote q' \<and>
        (\<forall>c \<in> set x. \<not> is_quote c) \<and> g' = g(1 \<mapsto> x))"
  unfolding pattern1_from_part by (rule in_ms_from_part)

lemma in_ms_import_part:
  "(s', g') \<in> set (ms (Seq (lit ''import'') (Seq (Plus Space) (Seq (Grp 1 (StarLazy (NoneOf quotes)))
     (Plus Space)))) (s, g)) \<longleftrightarrow>
     (\<exists>w1 cl w2. s = str ''import'' @ w1 @ cl @ w2 @ s' \<and>
        w1 \<noteq> [] \<and> (\<forall>c \<in> set w1. is_space c) \<and> (\<forall>c \<in> set cl. \<not> is_quote c) \<and>
        w2 \<noteq> [] \<and> (\<forall>c \<in> set w2. is_space c) \<and> g' = g(1 \<mapsto> cl))"
  apply (simp only: in_ms_Seq in_ms_lit in_ms_Plus in_ms_In in_ms_Grp in_ms_StarLazy in_ms_Eps
      in_cls.simps in_quotes)
  apply (rule iffI)
   apply (elim exE conjE)
   apply simp
   apply blast
  apply (elim exE conjE)
  apply simp
  apply blast
  done

lemma in_ms_Seq4:
  "(s', g') \<in> set (ms (Seq a (Seq b (Seq c (Seq d e)))) (s, g)) \<longleftrightarrow>
     (\<exists>t h. (t, h) \<in> set (ms (Seq a (Seq b (Seq c d))) (s, g)) \<and> (s', g') \<in> set (ms e (t, h)))"
  by (simp only: in_ms_Seq) blast

lemma in_ms_pattern2:
  "(s', g') \<in> set (ms pattern2 (s, g)) \<longleftrightarrow>
     (\<exists>w1 cl w2 w3 q x q'.
        s = str ''import'' @ w1 @ cl @ w2 @ str ''from'' @ w3 @ q # x @ str ''.js'' @ q' # s' \<and>
        w1 \<noteq> [] \<and> (\<forall>c \<in> set w1. is_space c) \<and> (\<forall>c \<in> set cl. \<not> is_quote c) \<and>
        w2 \<noteq> [] \<and> (\<forall>c \<in> set w2. is_space c) \<and>
        w3 \<noteq> [] \<and> (\<forall>c \<in> set w3. is_space c) \<and> is_quote q \<and> is_quote q' \<and>
        (\<forall>c \<in> set x. \<not> is_quote c) \<and> g' = g(1 \<mapsto> cl, 2 \<mapsto> x))"
  (is "?L \<longleftrightarrow> ?R")
proof
  assume ?L
  then obtain t h where 1: "(t, h) \<in> set (ms (Seq (lit ''import'') (Seq (Plus Space)
      (Seq (Grp 1 (StarLazy (NoneOf quotes))) (Plus Space)))) (s, g))"
    and 2: "(s', g') \<in> set (ms (from_part 2) (t, h))"
    unfolding pattern2_from_part in_ms_Seq4 by blast
  from 1 obtain w1 cl w2 where a: "s = str ''import'' @ w1 @ cl @ w2 @ t"
      "w1 \<noteq> []" "\<forall>c \<in> set w1. is_space c" "\<forall>c \<in> set cl. \<not> is_quote c"
      "w2 \<noteq> []" "\<forall>c \<in> set w2. is_space c" "h = g(1 \<mapsto> cl)"
    unfolding in_ms_import_part by blast
  from 2 obtain w3 q x q' where b: "t = str ''from'' @ w3 @ q # x @ str ''.js'' @ q' # s'"
      "w3 \<noteq> []" "\<forall>c \<in> set w3. is_space c" "is_quote q" "is_quote q'"
      "\<forall>c \<in> set x. \<not> is_quote c" "g' = h(2 \<mapsto> x)"
    unfolding in_ms_from_part by blast
  have "s = str ''import'' @ w1 @ cl @ w2 @ str ''from'' @ w3 @ q # x @ str ''.js'' @ q' # s'"
    using a(1) b(1) by simp
  moreover have "g' = g(1 \<mapsto> cl, 2 \<mapsto> x)" using a(7) b(7) by simp
  ultimately have "s = str ''import'' @ w1 @ cl @ w2 @ str ''from'' @ w3 @ q # x @ str ''.js'' @ q' # s' \<and>
        w1 \<noteq> [] \<and> (\<forall>c \<in> set w1. is_space c) \<and> (\<forall>c \<in> set cl. \<not> is_quote c) \<and>
        w2 \<noteq> [] \<and> (\<forall>c \<in> set w2. is_space c) \<and>
        w3 \<noteq> [] \<and> (\<forall>c \<in> set w3. is_space c) \<and> is_quote q \<and> is_quote q' \<and>
        (\<forall>c \<in> set x. \<not> is_quote c) \<and> g' = g(1 \<mapsto> cl, 2 \<mapsto> x)"
    using a(2-6) b(2-6) by simp
  then show ?R by (intro exI)
next
  assume ?R
  then obtain w1 cl w2 w3 q x q' where
    r: "s = str ''import'' @ w1 @ cl @ w2 @ str ''from'' @ w3 @ q # x @ str ''.js'' @ q' # s'"
      "w1 \<noteq> []" "\<forall>c \<in> set w1. is_space c" "\<forall>c \<in> set cl. \<not> is_quote c"
      "w2 \<noteq> []" "\<forall>c \<in> set w2. is_space c"
      "w3 \<noteq> []" "\<forall>c \<in> set w3. is_space c" "is_quote q" "is_quote q'"
      "\<forall>c \<in> set x. \<not> is_quote c" "g' = g(1 \<mapsto> cl, 2 \<mapsto> x)"
    by blast
  let ?t = "str ''from'' @ w3 @ q # x @ str ''.js'' @ q' # s'"
  have 1: "(?t, g(1 \<mapsto> cl)) \<in> set (ms (Seq (lit ''import'') (Seq (Plus Space)
      (Seq (Grp 1 (StarLazy (NoneOf quotes))) (Plus Space)))) (s, g))"
    unfolding in_ms_import_part using r(1-6) by blast
  have 2: "(s', g') \<in> set (ms (from_part 2) (?t, g(1 \<mapsto> cl)))"
    unfolding in_ms_from_part using r(7-12) by blast
  from 1 2 show ?L unfolding pattern2_from_part in_ms_Seq4 by blast
qed

section \<open>Substitution\<close>

declare sub.simps [simp del]

lemma split_unique:
  assumes "\<forall>c \<in> set a. P c" "\<not> P b" "\<forall>c \<in> set a'. P c" "\<not> P b'"
    and eq: "a @ b # r = a' @ b' # r'"
  shows "a = a' \<and> b = b' \<and> r = r'"
proof -
  have 1: "takeWhile P (a @ b # r) = a" using assms(1,2) by (simp add: takeWhile_append2)
  have 2: "takeWhile P (a' @ b' # r') = a'" using assms(3,4) by (simp add: takeWhile_append2)
  from 1 2 eq have "a = a'" by simp
  with eq show ?thesis by simp
qed

lemma space_not_quote: "is_space c \<Longrightarrow> \<not> is_quote c"
  by (auto simp: is_space_def is_quote_def)

lemma js_no_quote: "\<forall>c \<in> set (str ''.js''). \<not> is_quote c"
  by (simp add: str_def is_quote_def)

lemma from_no_quote: "\<forall>c \<in> set (str ''from''). \<not> is_quote c"
  by (simp add: str_def is_quote_def)

lemma pattern1_unique:
  assumes "s = str ''from'' @ ws @ q # x @ str ''.js'' @ q' # r"
    "\<forall>c \<in> set ws. is_space c" "is_quote q" "is_quote q'" "\<forall>c \<in> set x. \<not> is_quote c"
    and "s = str ''from'' @ ws2 @ q2 # x2 @ str ''.js'' @ q2' # r2"
    "\<forall>c \<in> set ws2. is_space c" "is_quote q2" "is_quote q2'" "\<forall>c \<in> set x2. \<not> is_quote c"
  shows "ws = ws2 \<and> q = q2 \<and> x = x2 \<and> q' = q2' \<and> r = r2"
proof -
  from assms(1,6) have e1: "ws @ q # (x @ str ''.js'' @ q' # r) = ws2 @ q2 # (x2 @ str ''.js'' @ q2' # r2)"
    by simp
  have nq: "\<not> is_space q" "\<not> is_space q2" using assms(3,8) space_not_quote by blast+
  from split_unique[of ws is_space q ws2 q2, OF assms(2) nq(1) assms(7) nq(2) e1]
  have a: "ws = ws2" "q = q2" and e2: "x @ str ''.js'' @ q' # r = x2 @ str ''.js'' @ q2' # r2"
    by simp_all
  from e2 have e3: "(x @ str ''.js'') @ q' # r = (x2 @ str ''.js'') @ q2' # r2" by simp
  have p1: "\<forall>c \<in> set (x @ str ''.js''). \<not> is_quote c" using assms(5) js_no_quote by auto
  have p2: "\<forall>c \<in> set (x2 @ str ''.js''). \<not> is_quote c" using assms(10) js_no_quote by auto
  have q1: "\<not> \<not> is_quote q'" "\<not> \<not> is_quote q2'" using assms(4,9) by simp_all
  from split_unique[of "x @ str ''.js''" "\<lambda>c. \<not> is_quote c" q' "x2 @ str ''.js''" q2', OF p1 q1(1) p2 q1(2) e3]
  have "x @ str ''.js'' = x2 @ str ''.js''" "q' = q2'" "r = r2" by simp_all
  with a show ?thesis by simp
qed

lemma match_here_pattern1:
  assumes "ws \<noteq> []" "\<forall>c \<in> set ws. is_space c" "is_quote q" "is_quote q'"
    "\<forall>c \<in> set x. \<not> is_quote c"
  shows "match_here pattern1 (str ''from'' @ ws @ q # x @ str ''.js'' @ q' # r)
     = Some (r, [1 \<mapsto> x])"
proof -
  let ?s = "str ''from'' @ ws @ q # x @ str ''.js'' @ q' # r"
  have mem: "(r, [1 \<mapsto> x]) \<in> set (ms pattern1 (?s, Map.empty))"
    unfolding in_ms_pattern1 using assms by blast
  then obtain m rest where l: "ms pattern1 (?s, Map.empty) = m # rest"
    by (cases "ms pattern1 (?s, Map.empty)") auto
  then have "m \<in> set (ms pattern1 (?s, Map.empty))" by simp
  then have "(fst m, snd m) \<in> set (ms pattern1 (?s, Map.empty))" by simp
  then obtain ws2 q2 x2 q2' where d: "?s = str ''from'' @ ws2 @ q2 # x2 @ str ''.js'' @ q2' # fst m"
    "\<forall>c \<in> set ws2. is_space c" "is_quote q2" "is_quote q2'" "\<forall>c \<in> set x2. \<not> is_quote c"
    "snd m = [1 \<mapsto> x2]"
    unfolding in_ms_pattern1 by blast
  from pattern1_unique[OF refl assms(2-5) d(1-5)] have "x = x2" "r = fst m" by simp_all
  with d(6) have "m = (r, [1 \<mapsto> x])" by (cases m) simp
  with l show ?thesis by (simp add: match_here_def)
qed

lemma match_here_SomeD:
  "match_here p s = Some (r, g) \<Longrightarrow> (r, g) \<in> set (ms p (s, Map.empty))"
  by (auto simp: match_here_def split: list.splits)

lemma match_here_NoneD:
  "match_here p s = None \<Longrightarrow> ms p (s, Map.empty) = []"
  by (auto simp: match_here_def split: list.splits)

lemma match_here_pattern1_SomeD:
  assumes "match_here pattern1 s = Some (r, g)"
  shows "\<exists>ws q x q'. s = str ''from'' @ ws @ q # x @ str ''.js'' @ q' # r \<and> ws \<noteq> [] \<and>
        (\<forall>c \<in> set ws. is_space c) \<and> is_quote q \<and> is_quote q' \<and>
        (\<forall>c \<in> set x. \<not> is_quote c) \<and> g = [1 \<mapsto> x]"
  using match_here_SomeD[OF assms] unfolding in_ms_pattern1 .

lemma match_here_pattern2_SomeD:
  assumes "match_here pattern2 s = Some (r, g)"
  shows "\<exists>w1 cl w2 w3 q x q'.
        s = str ''import'' @ w1 @ cl @ w2 @ str ''from'' @ w3 @ q # x @ str ''.js'' @ q' # r \<and>
        w1 \<noteq> [] \<and> (\<forall>c \<in> set w1. is_space c) \<and> (\<forall>c \<in> set cl. \<not> is_quote c) \<and>
        w2 \<noteq> [] \<and> (\<forall>c \<in> set w2. is_space c) \<and>
        w3 \<noteq> [] \<and> (\<forall>c \<in> set w3. is_space c) \<and> is_quote q \<and> is_quote q' \<and>
        (\<forall>c \<in> set x. \<not> is_quote c) \<and> g = [1 \<mapsto> cl, 2 \<mapsto> x]"
  using match_here_SomeD[OF assms] unfolding in_ms_pattern2 .

lemma expand_replacement1: "expand replacement1 [1 \<mapsto> x] = str ''from '' @ 39 # x @ [39]"
  by (simp add: expand_def replacement1_def str_def sq_def)

lemma expand_replacement2:
  "expand replacement2 [1 \<mapsto> cl, 2 \<mapsto> x] = str ''import '' @ cl @ str '' from '' @ 39 # x @ [39]"
  by (simp add: expand_def replacement2_def str_def sq_def)

lemma pattern1_shrinks:
  assumes "match_here pattern1 s = Some (r, g)"
  shows "length (expand replacement1 g) + length r < length s"
proof -
  from match_here_pattern1_SomeD[OF assms] obtain ws q x q' where
    d: "s = str ''from'' @ ws @ q # x @ str ''.js'' @ q' # r" "ws \<noteq> []" "g = [1 \<mapsto> x]"
    by blast
  show ?thesis using d(2) unfolding d(1,3) expand_replacement1 by (simp add: str_def)
qed

lemma pattern2_shrinks:
  assumes "match_here pattern2 s = Some (r, g)"
  shows "length (expand replacement2 g) + length r < length s"
proof -
  from match_here_pattern2_SomeD[OF assms] obtain w1 cl w2 w3 q x q' where
    d: "s = str ''import'' @ w1 @ cl @ w2 @ str ''from'' @ w3 @ q # x @ str ''.js'' @ q' # r"
      "w1 \<noteq> []" "w2 \<noteq> []" "w3 \<noteq> []" "g = [1 \<mapsto> cl, 2 \<mapsto> x]"
    by blast
  show ?thesis using d(2,3,4) unfolding d(1,5) expand_replacement2 by (simp add: str_def)
qed

text \<open>The recursion equation of \<open>sub\<close>, one case at a time.\<close>

lemma sub_Nil_None: "match_here p [] = None \<Longrightarrow> sub p t [] = []"
  by (simp add: sub.simps)

lemma sub_Cons_None: "match_here p (c # cs) = None \<Longrightarrow> sub p t (c # cs) = c # sub p t cs"
  by (simp add: sub.simps)

lemma sub_Some:
  "match_here p s = Some (r, g) \<Longrightarrow> length r < length s \<Longrightarrow> sub p t s = expand t g @ sub p t r"
  by (simp add: sub.simps)

lemma sub_same_or_shorter:
  assumes sh: "\<And>s r g. match_here p s = Some (r, g) \<Longrightarrow> length (expand t g) + length r < length s"
  shows "sub p t s = s \<or> length (sub p t s) < length s"
proof (induction s rule: length_induct)
  case (1 s)
  show ?case
  proof (cases "match_here p s")
    case None
    show ?thesis
    proof (cases s)
      case Nil
      with None show ?thesis by (simp add: sub_Nil_None)
    next
      case (Cons c cs)
      with 1 have "sub p t cs = cs \<or> length (sub p t cs) < length cs" by simp
      with None Cons show ?thesis by (auto simp: sub_Cons_None)
    qed
  next
    case (Some m)
    obtain r g where m: "m = (r, g)" by (cases m)
    with Some have "match_here p s = Some (r, g)" by simp
    from sh[OF this] have sh': "length (expand t g) + length r < length s" .
    then have lt: "length r < length s" by simp
    with 1 have "sub p t r = r \<or> length (sub p t r) < length r" by simp
    then have "length (sub p t r) \<le> length r" by auto
    with sh' have "length (sub p t s) < length s"
      using sub_Some[of p s r g t] Some m lt by simp
    then show ?thesis ..
  qed
qed

lemma sub_length_le:
  assumes sh: "\<And>s r g. match_here p s = Some (r, g) \<Longrightarrow> length (expand t g) + length r < length s"
  shows "length (sub p t s) \<le> length s"
  using sub_same_or_shorter[of p t s, OF sh] by auto

lemma occurs_iff: "occurs p s \<longleftrightarrow> (\<exists>i \<le> length s. match_here p (drop i s) \<noteq> None)"
  unfolding occurs_def upt_Suc_set by blast

lemma occurs_Cons: "occurs p (c # cs) \<longleftrightarrow> match_here p (c # cs) \<noteq> None \<or> occurs p cs"
proof
  assume "occurs p (c # cs)"
  then obtain i where i: "i \<le> length (c # cs)" "match_here p (drop i (c # cs)) \<noteq> None"
    unfolding occurs_iff by blast
  show "match_here p (c # cs) \<noteq> None \<or> occurs p cs"
  proof (cases i)
    case 0
    with i show ?thesis by simp
  next
    case (Suc j)
    with i have "j \<le> length cs" "match_here p (drop j cs) \<noteq> None" by simp_all
    then show ?thesis unfolding occurs_iff by blast
  qed
next
  assume "match_here p (c # cs) \<noteq> None \<or> occurs p cs"
  then show "occurs p (c # cs)"
  proof
    assume "match_here p (c # cs) \<noteq> None"
    then have "0 \<le> length (c # cs) \<and> match_here p (drop 0 (c # cs)) \<noteq> None" by simp
    then show ?thesis unfolding occurs_iff by blast
  next
    assume "occurs p cs"
    then obtain j where "j \<le> length cs" "match_here p (drop j cs) \<noteq> None"
      unfolding occurs_iff by blast
    then have "Suc j \<le> length (c # cs) \<and> match_here p (drop (Suc j) (c # cs)) \<noteq> None" by simp
    then show ?thesis unfolding occurs_iff by blast
  qed
qed

lemma occurs_Nil: "occurs p [] \<longleftrightarrow> match_here p [] \<noteq> None"
  unfolding occurs_iff by simp

lemma sub_no_occurrence: "\<not> occurs p s \<Longrightarrow> sub p t s = s"
proof (induction s)
  case Nil
  with occurs_Nil[of p] have "match_here p [] = None" by blast
  then show ?case by (rule sub_Nil_None)
next
  case (Cons c cs)
  from Cons.prems occurs_Cons[of p c cs] have n: "match_here p (c # cs) = None" "\<not> occurs p cs"
    by blast+
  from Cons.IH[OF n(2)] sub_Cons_None[OF n(1)] show ?case by simp
qed

lemma sub_occurrence_shorter:
  assumes sh: "\<And>s r g. match_here p s = Some (r, g) \<Longrightarrow> length (expand t g) + length r < length s"
  shows "occurs p s \<Longrightarrow> length (sub p t s) < length s"
proof (induction s)
  case Nil
  with occurs_Nil[of p] obtain m where "match_here p [] = Some m" by blast
  then show ?case using sh[of "[]" "fst m" "snd m"] by simp
next
  case (Cons c cs)
  show ?case
  proof (cases "match_here p (c # cs)")
    case None
    with Cons.prems occurs_Cons[of p c cs] have "occurs p cs" by simp
    with Cons.IH have "length (sub p t cs) < length cs" by simp
    with None show ?thesis by (simp add: sub_Cons_None)
  next
    case (Some m)
    obtain r g where m: "m = (r, g)" by (cases m)
    with Some have "match_here p (c # cs) = Some (r, g)" by simp
    from sh[OF this] have sh': "length (expand t g) + length r < length (c # cs)" .
    then have lt: "length r < length (c # cs)" by simp
    have "length (sub p t r) \<le> length r" by (rule sub_length_le[OF sh])
    with sh' show ?thesis
      using sub_Some[of p "c # cs" r g t] Some m lt by simp
  qed
qed

lemma sub1_occurrence_shorter:
  "occurs pattern1 s \<Longrightarrow> length (sub pattern1 replacement1 s) < length s"
  using sub_occurrence_shorter[where p = pattern1 and t = replacement1 and s = s] pattern1_shrinks
  by blast

lemma sub2_length_le: "length (sub pattern2 replacement2 s) \<le> length s"
  using sub_length_le[where p = pattern2 and t = replacement2 and s = s] pattern2_shrinks
  by blast

lemma sub1_length_le: "length (sub pattern1 replacement1 s) \<le> length s"
  using sub_length_le[where p = pattern1 and t = replacement1 and s = s] pattern1_shrinks
  by blast

lemma rewrite_eq: "rewrite s = sub pattern2 replacement2 (sub pattern1 replacement1 s)"
  by (simp add: rewrite_def patterns_def)

lemma occurs_drop: "i \<le> length s \<Longrightarrow> occurs p (drop i s) \<Longrightarrow> occurs p s"
proof -
  assume i: "i \<le> length s" and "occurs p (drop i s)"
  then obtain j where j: "j \<le> length (drop i s)" "match_here p (drop j (drop i s)) \<noteq> None"
    unfolding occurs_iff by blast
  then have "i + j \<le> length s \<and> match_here p (drop (i + j) s) \<noteq> None"
    using i by (simp add: add.commute)
  then show "occurs p s" unfolding occurs_iff by blast
qed

lemma pattern2_needs_pattern1:
  assumes "occurs pattern2 s"
  shows "occurs pattern1 s"
proof -
  from assms obtain i m where i: "i \<le> length s" and m: "match_here pattern2 (drop i s) = Some m"
    unfolding occurs_iff by auto
  obtain r g where "m = (r, g)" by (cases m)
  with m have "match_here pattern2 (drop i s) = Some (r, g)" by simp
  from match_here_pattern2_SomeD[OF this] obtain w1 cl w2 w3 q x q' where
    d: "drop i s = str ''import'' @ w1 @ cl @ w2 @ str ''from'' @ w3 @ q # x @ str ''.js'' @ q' # r"
      "w3 \<noteq> []" "\<forall>c \<in> set w3. is_space c" "is_quote q" "is_quote q'" "\<forall>c \<in> set x. \<not> is_quote c"
    by blast
  let ?k = "length (str ''import'' @ w1 @ cl @ w2)"
  let ?t = "str ''from'' @ w3 @ q # x @ str ''.js'' @ q' # r"
  have "drop ?k (drop i s) = ?t" unfolding d(1) by simp
  moreover have "match_here pattern1 ?t \<noteq> None"
    using match_here_pattern1[OF d(2-6)] by simp
  ultimately have "match_here pattern1 (drop ?k (drop i s)) \<noteq> None" by simp
  moreover have "?k \<le> length (drop i s)" unfolding d(1) by simp
  ultimately have "occurs pattern1 (drop i s)" unfolding occurs_iff by blast
  with i show ?thesis by (rule occurs_drop)
qed

lemma rewrite_fixed_iff: "rewrite s = s \<longleftrightarrow> \<not> occurs pattern1 s"
proof
  assume eq: "rewrite s = s"
  show "\<not> occurs pattern1 s"
  proof
    assume "occurs pattern1 s"
    then have "length (sub pattern1 replacement1 s) < length s"
      by (rule sub1_occurrence_shorter)
    moreover have "length (rewrite s) \<le> length (sub pattern1 replacement1 s)"
      unfolding rewrite_eq by (rule sub2_length_le)
    ultimately show False using eq by simp
  qed
next
  assume n: "\<not> occurs pattern1 s"
  then have 1: "sub pattern1 replacement1 s = s" by (rule sub_no_occurrence)
  from n have "\<not> occurs pattern2 s" using pattern2_needs_pattern1 by blast
  then have "sub pattern2 replacement2 s = s" by (rule sub_no_occurrence)
  with 1 show "rewrite s = s" by (simp add: rewrite_eq)
qed

lemma rewrite_same_or_shorter: "rewrite s = s \<or> length (rewrite s) < length s"
proof (cases "occurs pattern1 s")
  case True
  then have "length (sub pattern1 replacement1 s) < length s"
    by (rule sub1_occurrence_shorter)
  moreover have "length (rewrite s) \<le> length (sub pattern1 replacement1 s)"
    unfolding rewrite_eq by (rule sub2_length_le)
  ultimately show ?thesis by simp
next
  case False
  then show ?thesis by (simp add: rewrite_fixed_iff)
qed

section \<open>Occurrences do not overlap\<close>

lemma match_here_pattern1_None_Nil: "match_here pattern1 [] = None"
proof (cases "match_here pattern1 []")
  case (Some m)
  then have "match_here pattern1 [] = Some (fst m, snd m)" by simp
  from match_here_pattern1_SomeD[OF this] show ?thesis by (auto simp: str_def)
qed simp

lemma f_not_space: "\<not> is_space 102" "\<not> is_space 115" "\<not> is_quote 102"
  by (simp_all add: is_space_def is_quote_def)

text \<open>A match that starts before an occurrence of the pattern ends before it.\<close>

lemma match_before_occurrence:
  assumes occ: "ws \<noteq> []" "\<forall>c \<in> set ws. is_space c" "is_quote q"
    and t: "t = str ''from'' @ ws @ q # u"
    and pre: "pre \<noteq> []"
    and m: "match_here pattern1 (pre @ t) = Some (r, g)"
  shows "\<exists>pre'. r = pre' @ t \<and> match_here pattern1 pre = Some (pre', g) \<and> length pre' < length pre"
proof -
  from match_here_pattern1_SomeD[OF m] obtain ws2 a y b where
    d: "pre @ t = str ''from'' @ ws2 @ a # y @ str ''.js'' @ b # r" "ws2 \<noteq> []"
      "\<forall>c \<in> set ws2. is_space c" "is_quote a" "is_quote b" "\<forall>c \<in> set y. \<not> is_quote c"
      "g = [1 \<mapsto> y]"
    by blast
  let ?nq = "\<lambda>c. \<not> is_quote c"
  have A2: "\<forall>c \<in> set (str ''from'' @ ws2). ?nq c"
    using d(3) from_no_quote space_not_quote by auto
  have A1: "\<forall>c \<in> set (str ''from'' @ ws). ?nq c"
    using occ(2) from_no_quote space_not_quote by auto
  have YJ: "\<forall>c \<in> set (y @ str ''.js''). ?nq c" using d(6) js_no_quote by auto
  have nn: "\<not> ?nq a" "\<not> ?nq b" "\<not> ?nq q" using d(4,5) occ(3) by simp_all
  show ?thesis
  proof (cases "\<exists>c \<in> set pre. is_quote c")
    case False
    then have P: "\<forall>c \<in> set (pre @ str ''from'' @ ws). ?nq c" using A1 by auto
    have "(pre @ str ''from'' @ ws) @ q # u = (str ''from'' @ ws2) @ a # (y @ str ''.js'' @ b # r)"
      using d(1) t by simp
    from split_unique[OF P nn(3) A2 nn(1) this] have "pre @ str ''from'' @ ws = str ''from'' @ ws2"
      by simp
    moreover obtain c cs where "pre = c # cs" using pre by (cases pre) auto
    ultimately have eq: "cs @ str ''from'' @ ws = str ''rom'' @ ws2" by (simp add: str_def)
    have "102 \<in> set (cs @ str ''from'' @ ws)" by (simp add: str_def)
    then have "102 \<in> set (str ''rom'' @ ws2)" unfolding eq .
    then have "102 \<in> set ws2" by (simp add: str_def)
    with d(3) f_not_space show ?thesis by blast
  next
    case True
    from split_list_first_prop[OF True] obtain p1 c p2 where
      s1: "pre = p1 @ c # p2" "is_quote c" "\<forall>z \<in> set p1. ?nq z" by blast
    have "p1 @ c # (p2 @ t) = (str ''from'' @ ws2) @ a # (y @ str ''.js'' @ b # r)"
      using d(1) s1(1) by simp
    from split_unique[OF s1(3) _ A2 nn(1) this] s1(2)
    have e1: "p1 = str ''from'' @ ws2" "c = a" "p2 @ t = y @ str ''.js'' @ b # r" by simp_all
    show ?thesis
    proof (cases "\<exists>c \<in> set p2. is_quote c")
      case False
      then have P: "\<forall>c \<in> set (p2 @ str ''from'' @ ws). ?nq c" using A1 by auto
      have "(p2 @ str ''from'' @ ws) @ q # u = (y @ str ''.js'') @ b # r"
        using e1(3) t by simp
      from split_unique[OF P nn(3) YJ nn(2) this] have "p2 @ str ''from'' @ ws = y @ str ''.js''"
        by simp
      then have "last (p2 @ str ''from'' @ ws) = last (y @ str ''.js'')" by simp
      then have "last ws = 115" using occ(1) by (simp add: str_def)
      moreover have "last ws \<in> set ws" using occ(1) by simp
      ultimately show ?thesis using occ(2) f_not_space by metis
    next
      case True
      from split_list_first_prop[OF True] obtain p3 e p4 where
        s2: "p2 = p3 @ e # p4" "is_quote e" "\<forall>z \<in> set p3. ?nq z" by blast
      have "p3 @ e # (p4 @ t) = (y @ str ''.js'') @ b # r" using e1(3) s2(1) by simp
      from split_unique[OF s2(3) _ YJ nn(2) this] s2(2)
      have e2: "p3 = y @ str ''.js''" "e = b" "r = p4 @ t" by simp_all
      have "pre = str ''from'' @ ws2 @ a # y @ str ''.js'' @ b # p4"
        using s1(1) s2(1) e1(1,2) e2(1,2) by simp
      then have "match_here pattern1 pre = Some (p4, [1 \<mapsto> y])"
        using match_here_pattern1[OF d(2-6)] by simp
      moreover have "length p4 < length pre" using s1(1) s2(1) by simp
      ultimately show ?thesis using e2(3) d(7) by blast
    qed
  qed
qed

text \<open>What matches in a text matches in every extension of it.\<close>

lemma match_here_pattern1_extend:
  assumes "match_here pattern1 s = Some (r, g)"
  shows "match_here pattern1 (s @ t) = Some (r @ t, g)"
proof -
  from match_here_pattern1_SomeD[OF assms] obtain ws q x q' where
    d: "s = str ''from'' @ ws @ q # x @ str ''.js'' @ q' # r" "ws \<noteq> []"
      "\<forall>c \<in> set ws. is_space c" "is_quote q" "is_quote q'" "\<forall>c \<in> set x. \<not> is_quote c"
      "g = [1 \<mapsto> x]"
    by blast
  show ?thesis unfolding d(1,7) using match_here_pattern1[OF d(2-6), of "r @ t"] by simp
qed

lemma sub1_pattern_split:
  assumes "ws \<noteq> []" "\<forall>c \<in> set ws. is_space c" "is_quote q" "is_quote q'"
    "\<forall>c \<in> set x. \<not> is_quote c"
  shows "sub pattern1 replacement1 (pre @ str ''from'' @ ws @ q # x @ str ''.js'' @ q' # post)
     = sub pattern1 replacement1 pre @ str ''from '' @ 39 # x @ 39 # sub pattern1 replacement1 post"
proof (induction pre rule: length_induct)
  case (1 pre)
  let ?t = "str ''from'' @ ws @ q # x @ str ''.js'' @ q' # post"
  let ?S = "sub pattern1 replacement1"
  show ?case
  proof (cases pre)
    case Nil
    have m: "match_here pattern1 ?t = Some (post, [1 \<mapsto> x])" by (rule match_here_pattern1[OF assms])
    have "?S ?t = expand replacement1 [1 \<mapsto> x] @ ?S post"
      by (rule sub_Some[OF m]) simp
    moreover have "?S [] = []" by (rule sub_Nil_None[OF match_here_pattern1_None_Nil])
    ultimately show ?thesis using Nil unfolding expand_replacement1 by simp
  next
    case (Cons c cs)
    show ?thesis
    proof (cases "match_here pattern1 (pre @ ?t)")
      case None
      have n: "match_here pattern1 pre = None"
      proof (cases "match_here pattern1 pre")
        case (Some m)
        then have "match_here pattern1 pre = Some (fst m, snd m)" by simp
        from match_here_pattern1_extend[OF this, of ?t] None show ?thesis by simp
      qed simp
      have "?S (pre @ ?t) = c # ?S (cs @ ?t)"
        using sub_Cons_None[of pattern1 c "cs @ ?t" replacement1] None Cons by simp
      moreover have "?S pre = c # ?S cs" using sub_Cons_None[of pattern1 c cs replacement1] n Cons by simp
      moreover have "?S (cs @ ?t) = ?S cs @ str ''from '' @ 39 # x @ 39 # ?S post"
        using 1 Cons by simp
      ultimately show ?thesis by simp
    next
      case (Some m)
      then have m: "match_here pattern1 (pre @ ?t) = Some (fst m, snd m)" by simp
      have "pre \<noteq> []" using Cons by simp
      from match_before_occurrence[OF assms(1-3) refl this m] obtain pre' where
        p: "fst m = pre' @ ?t" "match_here pattern1 pre = Some (pre', snd m)" "length pre' < length pre"
        by blast
      have "?S (pre @ ?t) = expand replacement1 (snd m) @ ?S (pre' @ ?t)"
        using sub_Some[OF m] p(1,3) by simp
      moreover have "?S pre = expand replacement1 (snd m) @ ?S pre'"
        using sub_Some[OF p(2)] p(3) by simp
      moreover have "?S (pre' @ ?t) = ?S pre' @ str ''from '' @ 39 # x @ 39 # ?S post"
        using 1 p(3) by simp
      ultimately show ?thesis by simp
    qed
  qed
qed

section \<open>Texts in which rule 1 finds nothing\<close>

lemma ends_with_iff: "ends_with s suffix \<longleftrightarrow> (\<exists>p0. s = p0 @ suffix)"
proof
  assume "ends_with s suffix"
  then have "s = take (length s - length suffix) s @ suffix"
    unfolding ends_with_def by (metis append_take_drop_id)
  then show "\<exists>p0. s = p0 @ suffix" ..
next
  assume "\<exists>p0. s = p0 @ suffix"
  then show "ends_with s suffix" unfolding ends_with_def by auto
qed

lemma filter_drop_le: "length (filter P (drop k xs)) \<le> length (filter P xs)"
proof -
  have "filter P xs = filter P (take k xs) @ filter P (drop k xs)"
    by (metis append_take_drop_id filter_append)
  then show ?thesis by simp
qed

lemma no_occurrence_single_literal:
  assumes a: "\<forall>c \<in> set a. \<not> is_quote c" and q: "is_quote q" "is_quote q'"
    and p: "\<forall>c \<in> set p. \<not> is_quote c" and post: "\<forall>c \<in> set post. \<not> is_quote c"
    and nojs: "\<not> ends_with p (str ''.js'')"
  shows "\<not> occurs pattern1 (a @ q # p @ q' # post)"
proof
  let ?T = "a @ q # p @ q' # post"
  let ?nq = "\<lambda>c. \<not> is_quote c"
  assume "occurs pattern1 ?T"
  then obtain i m where i: "i \<le> length ?T" and m: "match_here pattern1 (drop i ?T) = Some m"
    unfolding occurs_iff by auto
  then have "match_here pattern1 (drop i ?T) = Some (fst m, snd m)" by simp
  from match_here_pattern1_SomeD[OF this] obtain ws2 b1 y b2 where
    d: "drop i ?T = str ''from'' @ ws2 @ b1 # y @ str ''.js'' @ b2 # fst m"
      "\<forall>c \<in> set ws2. is_space c" "is_quote b1" "is_quote b2" "\<forall>c \<in> set y. \<not> is_quote c"
    by blast
  have A2: "\<forall>c \<in> set (str ''from'' @ ws2). ?nq c"
    using d(2) from_no_quote space_not_quote by auto
  have YJ: "\<forall>c \<in> set (y @ str ''.js''). ?nq c" using d(5) js_no_quote by auto
  have nn: "\<not> ?nq b1" "\<not> ?nq b2" "\<not> ?nq q" "\<not> ?nq q'" using d(3,4) q by simp_all
  show False
  proof (cases "i \<le> length a")
    case True
    then have "drop i ?T = drop i a @ q # p @ q' # post" by simp
    with d(1) have e: "drop i a @ q # (p @ q' # post) = (str ''from'' @ ws2) @ b1 # (y @ str ''.js'' @ b2 # fst m)"
      by simp
    have "\<forall>c \<in> set (drop i a). ?nq c" using a by (meson in_set_dropD)
    from split_unique[OF this nn(3) A2 nn(1) e]
    have "p @ q' # post = (y @ str ''.js'') @ b2 # fst m" by simp
    from split_unique[OF p nn(4) YJ nn(2) this] have "p = y @ str ''.js''" by simp
    with nojs show False unfolding ends_with_iff by blast
  next
    case False
    then have "drop i ?T = drop (i - length a) (q # p @ q' # post)" by simp
    also have "\<dots> = drop (i - length a - 1) (p @ q' # post)"
      using False by (simp add: drop_Cons')
    finally have "length (filter is_quote (drop i ?T)) \<le> length (filter is_quote (p @ q' # post))"
      by (simp only: filter_drop_le)
    also have "\<dots> = 1" using p post q by (simp add: filter_empty_conv[THEN iffD2])
    finally have le: "length (filter is_quote (drop i ?T)) \<le> 1" .
    have f: "filter is_quote (str ''from'') = []" "filter is_quote (str ''.js'') = []"
      by (simp_all add: str_def is_quote_def)
    have "filter is_quote ws2 = []" "filter is_quote y = []"
      using d(2,5) space_not_quote by (simp_all add: filter_empty_conv)
    with f have "length (filter is_quote (drop i ?T)) \<ge> 2"
      unfolding d(1) using d(3,4) by simp
    with le show False by simp
  qed
qed

lemma rewrite_single_literal_unchanged:
  assumes "\<forall>c \<in> set pre. \<not> is_quote c" "\<forall>c \<in> set ws. is_space c" "is_quote q" "is_quote q'"
    "\<forall>c \<in> set p. \<not> is_quote c" "\<forall>c \<in> set post. \<not> is_quote c"
    "\<not> ends_with p (str ''.js'')"
  shows "rewrite (pre @ str ''from'' @ ws @ q # p @ q' # post)
     = pre @ str ''from'' @ ws @ q # p @ q' # post"
proof -
  have "\<forall>c \<in> set (pre @ str ''from'' @ ws). \<not> is_quote c"
    using assms(1,2) from_no_quote space_not_quote by auto
  from no_occurrence_single_literal[OF this assms(3,4,5,6,7)]
  have "\<not> occurs pattern1 ((pre @ str ''from'' @ ws) @ q # p @ q' # post)" .
  then have "rewrite ((pre @ str ''from'' @ ws) @ q # p @ q' # post) = (pre @ str ''from'' @ ws) @ q # p @ q' # post"
    by (rule rewrite_fixed_iff[THEN iffD2])
  then show ?thesis by simp
qed

section \<open>A clause in any text\<close>

text \<open>
  A \<open>from\<close> clause whose value does not end in \<open>.js\<close> is passed over by both rules
  wherever it stands: no match ends inside it or starts inside it.
\<close>

lemma ends_in_from_spaceI:
  assumes "w \<noteq> []" "\<forall>c \<in> set w. is_space c"
  shows "ends_in_from_space (u @ str ''from'' @ w)"
proof -
  have m: "\<not> is_space 109" by (simp add: is_space_def)
  have "rev (u @ str ''from'' @ w) = rev w @ 109 # (str ''orf'' @ rev u)" by (simp add: str_def)
  moreover have "dropWhile is_space (rev w @ 109 # (str ''orf'' @ rev u)) = 109 # (str ''orf'' @ rev u)"
    using assms(2) m by (simp add: dropWhile_append3)
  moreover have "rev w @ 109 # (str ''orf'' @ rev u) \<noteq> 109 # (str ''orf'' @ rev u)"
    using assms(1) by simp
  ultimately show ?thesis by (simp add: ends_in_from_space_def str_def)
qed

lemma match_here_local_Some:
  assumes "match_here r (s @ t) = Some (x, h)" "length t \<le> length x"
  shows "\<exists>x'. x = x' @ t \<and> match_here r s = Some (x', h)"
proof -
  let ?F = "\<lambda>(x, h). length t \<le> length x"
  from assms(1) obtain rest where l: "ms r (s @ t, Map.empty) = (x, h) # rest"
    by (auto simp: match_here_def split: list.splits)
  then have "filter ?F (ms r (s @ t, Map.empty)) = (x, h) # filter ?F rest"
    using assms(2) by simp
  then have "map (\<lambda>(x, h). (x @ t, h)) (ms r (s, Map.empty)) = (x, h) # filter ?F rest"
    by (simp only: ms_append_filter)
  then obtain m ms' where "ms r (s, Map.empty) = m # ms'" "(\<lambda>(x, h). (x @ t, h)) m = (x, h)"
    by (cases "ms r (s, Map.empty)") auto
  then show ?thesis by (cases m) (auto simp: match_here_def)
qed

lemma match_here_local_None:
  assumes "match_here r (s @ t) = None"
  shows "match_here r s = None"
proof -
  from assms have "ms r (s @ t, Map.empty) = []" by (rule match_here_NoneD)
  then have "filter (\<lambda>(x, h). length t \<le> length x) (ms r (s @ t, Map.empty)) = []" by simp
  then have "map (\<lambda>(x, h). (x @ t, h)) (ms r (s, Map.empty)) = []" by (simp only: ms_append_filter)
  then show ?thesis by (simp add: match_here_def)
qed

lemma pattern1_lit_shape: "match_here pattern1 s = Some (r, g) \<Longrightarrow> lit_shape s r"
proof -
  assume "match_here pattern1 s = Some (r, g)"
  from match_here_pattern1_SomeD[OF this] obtain ws q x q' where
    d: "s = [] @ str ''from'' @ ws @ q # x @ str ''.js'' @ q' # r" "ws \<noteq> []"
      "\<forall>c \<in> set ws. is_space c" "is_quote q" "is_quote q'" "\<forall>c \<in> set x. \<not> is_quote c"
    by auto
  have "\<forall>c \<in> set ([]::pystr). \<not> is_quote c" by simp
  with d show ?thesis unfolding lit_shape_def by blast
qed

lemma import_no_quote: "\<forall>c \<in> set (str ''import''). \<not> is_quote c"
  by (simp add: str_def is_quote_def)

lemma pattern2_lit_shape: "match_here pattern2 s = Some (r, g) \<Longrightarrow> lit_shape s r"
proof -
  assume "match_here pattern2 s = Some (r, g)"
  from match_here_pattern2_SomeD[OF this] obtain w1 cl w2 w3 q x q' where
    d: "s = str ''import'' @ w1 @ cl @ w2 @ str ''from'' @ w3 @ q # x @ str ''.js'' @ q' # r"
      "\<forall>c \<in> set w1. is_space c" "\<forall>c \<in> set cl. \<not> is_quote c" "\<forall>c \<in> set w2. is_space c"
      "w3 \<noteq> []" "\<forall>c \<in> set w3. is_space c" "is_quote q" "is_quote q'" "\<forall>c \<in> set x. \<not> is_quote c"
    by blast
  have u: "\<forall>c \<in> set (str ''import'' @ w1 @ cl @ w2). \<not> is_quote c"
    using d(2,3,4) import_no_quote space_not_quote by auto
  have "s = (str ''import'' @ w1 @ cl @ w2) @ str ''from'' @ w3 @ q # x @ str ''.js'' @ q' # r"
    using d(1) by simp
  with u d(5-9) show ?thesis unfolding lit_shape_def by blast
qed

lemma lit_shape_shorter: "lit_shape s r \<Longrightarrow> length r < length s"
  unfolding lit_shape_def by auto

lemma lit_shape_before_clause:
  assumes ws: "\<forall>c \<in> set ws. is_space c" and q: "is_quote q" "is_quote q'"
    and p: "\<forall>c \<in> set p. \<not> is_quote c" and nojs: "\<not> ends_with p (str ''.js'')"
    and t: "t = str ''from'' @ ws @ q # p @ q' # post"
    and m: "lit_shape (pre @ t) rest"
  shows "length t \<le> length rest"
proof -
  from m obtain u w a y b where
    d: "pre @ t = u @ str ''from'' @ w @ a # y @ str ''.js'' @ b # rest"
      "\<forall>c \<in> set u. \<not> is_quote c" "\<forall>c \<in> set w. is_space c" "is_quote a" "is_quote b"
      "\<forall>c \<in> set y. \<not> is_quote c"
    unfolding lit_shape_def by blast
  let ?nq = "\<lambda>c. \<not> is_quote c"
  have A2: "\<forall>c \<in> set (u @ str ''from'' @ w). ?nq c"
    using d(2,3) from_no_quote space_not_quote by auto
  have A1: "\<forall>c \<in> set (str ''from'' @ ws). ?nq c"
    using ws from_no_quote space_not_quote by auto
  have YJ: "\<forall>c \<in> set (y @ str ''.js''). ?nq c" using d(6) js_no_quote by auto
  have nn: "\<not> ?nq a" "\<not> ?nq b" "\<not> ?nq q" "\<not> ?nq q'" using d(4,5) q by simp_all
  have e0: "pre @ t = (u @ str ''from'' @ w) @ a # ((y @ str ''.js'') @ b # rest)" using d(1) by simp
  show ?thesis
  proof (cases "\<exists>c \<in> set pre. is_quote c")
    case False
    then have P: "\<forall>c \<in> set (pre @ str ''from'' @ ws). ?nq c" using A1 by auto
    have "(pre @ str ''from'' @ ws) @ q # (p @ q' # post) = (u @ str ''from'' @ w) @ a # ((y @ str ''.js'') @ b # rest)"
      using e0 t by simp
    from split_unique[OF P nn(3) A2 nn(1) this]
    have "p @ q' # post = (y @ str ''.js'') @ b # rest" by simp
    from split_unique[OF p nn(4) YJ nn(2) this] have "p = y @ str ''.js''" by simp
    with nojs show ?thesis unfolding ends_with_iff by blast
  next
    case True
    from split_list_first_prop[OF True] obtain p1 c p2 where
      s1: "pre = p1 @ c # p2" "is_quote c" "\<forall>z \<in> set p1. ?nq z" by blast
    have "p1 @ c # (p2 @ t) = (u @ str ''from'' @ w) @ a # ((y @ str ''.js'') @ b # rest)"
      using e0 s1(1) by simp
    from split_unique[OF s1(3) _ A2 nn(1) this] s1(2)
    have e1: "p2 @ t = (y @ str ''.js'') @ b # rest" by simp
    show ?thesis
    proof (cases "\<exists>c \<in> set p2. is_quote c")
      case False
      then have P: "\<forall>c \<in> set (p2 @ str ''from'' @ ws). ?nq c" using A1 by auto
      have "(p2 @ str ''from'' @ ws) @ q # (p @ q' # post) = (y @ str ''.js'') @ b # rest"
        using e1 t by simp
      from split_unique[OF P nn(3) YJ nn(2) this] have "p2 @ str ''from'' @ ws = y @ str ''.js''"
        by simp
      then have "last (p2 @ str ''from'' @ ws) = last (y @ str ''.js'')" by simp
      then have l: "last (str ''from'' @ ws) = 115" by (simp add: str_def)
      show ?thesis
      proof (cases "ws = []")
        case True
        with l show ?thesis by (simp add: str_def)
      next
        case False
        with l have "last ws = 115" by simp
        moreover have "last ws \<in> set ws" using False by simp
        ultimately show ?thesis using ws f_not_space by metis
      qed
    next
      case True
      from split_list_first_prop[OF True] obtain p3 e p4 where
        s2: "p2 = p3 @ e # p4" "is_quote e" "\<forall>z \<in> set p3. ?nq z" by blast
      have "p3 @ e # (p4 @ t) = (y @ str ''.js'') @ b # rest" using e1 s2(1) by simp
      from split_unique[OF s2(3) _ YJ nn(2) this] s2(2)
      have "rest = p4 @ t" by simp
      then show ?thesis by simp
    qed
  qed
qed

lemma no_lit_shape_inside_clause:
  assumes ws: "\<forall>c \<in> set ws. is_space c" and q: "is_quote q" "is_quote q'"
    and p: "\<forall>c \<in> set p. \<not> is_quote c" and nojs: "\<not> ends_with p (str ''.js'')"
    and nofrom: "\<not> ends_in_from_space p"
    and i: "i < length (str ''from'' @ ws @ q # p @ [q'])"
  shows "\<not> lit_shape (drop i (str ''from'' @ ws @ q # p @ [q']) @ post) rest"
proof
  let ?A = "str ''from'' @ ws"
  let ?nq = "\<lambda>c. \<not> is_quote c"
  assume "lit_shape (drop i (str ''from'' @ ws @ q # p @ [q']) @ post) rest"
  then obtain u w a y b where
    d: "drop i (str ''from'' @ ws @ q # p @ [q']) @ post = u @ str ''from'' @ w @ a # y @ str ''.js'' @ b # rest"
      "\<forall>c \<in> set u. \<not> is_quote c" "w \<noteq> []" "\<forall>c \<in> set w. is_space c" "is_quote a" "is_quote b"
      "\<forall>c \<in> set y. \<not> is_quote c"
    unfolding lit_shape_def by blast
  have A2: "\<forall>c \<in> set (u @ str ''from'' @ w). ?nq c"
    using d(2,4) from_no_quote space_not_quote by auto
  have A1: "\<forall>c \<in> set ?A. ?nq c"
    using ws from_no_quote space_not_quote by auto
  have YJ: "\<forall>c \<in> set (y @ str ''.js''). ?nq c" using d(7) js_no_quote by auto
  have nn: "\<not> ?nq a" "\<not> ?nq b" "\<not> ?nq q" "\<not> ?nq q'" using d(5,6) q by simp_all
  have e0: "drop i (?A @ q # p @ [q']) @ post = (u @ str ''from'' @ w) @ a # ((y @ str ''.js'') @ b # rest)"
    using d(1) by simp
  show False
  proof (cases "i \<le> length ?A")
    case True
    then have "drop i (?A @ q # p @ [q']) @ post = drop i ?A @ q # (p @ q' # post)" by simp
    with e0 have e: "drop i ?A @ q # (p @ q' # post) = (u @ str ''from'' @ w) @ a # ((y @ str ''.js'') @ b # rest)"
      by simp
    have "\<forall>c \<in> set (drop i ?A). ?nq c" using A1 by (meson in_set_dropD)
    from split_unique[OF this nn(3) A2 nn(1) e]
    have "p @ q' # post = (y @ str ''.js'') @ b # rest" by simp
    from split_unique[OF p nn(4) YJ nn(2) this] have "p = y @ str ''.js''" by simp
    with nojs show False unfolding ends_with_iff by blast
  next
    case False
    define k where "k = i - length ?A - 1"
    from False have "drop i (?A @ q # p @ [q']) = drop (i - length ?A) (q # p @ [q'])" by simp
    also have "\<dots> = drop k (p @ [q'])" using False by (simp add: drop_Cons' k_def)
    finally have dr: "drop i (?A @ q # p @ [q']) = drop k (p @ [q'])" .
    have kp: "k \<le> length p" using i False by (simp add: k_def)
    then have "drop k (p @ [q']) = drop k p @ [q']" by simp
    with dr e0 have e: "drop k p @ q' # post = (u @ str ''from'' @ w) @ a # ((y @ str ''.js'') @ b # rest)"
      by simp
    have "\<forall>c \<in> set (drop k p). ?nq c" using p by (meson in_set_dropD)
    from split_unique[OF this nn(4) A2 nn(1) e] have "drop k p = u @ str ''from'' @ w" by simp
    then have "p = (take k p @ u) @ str ''from'' @ w" by (metis append_take_drop_id append_assoc)
    with ends_in_from_spaceI[OF d(3,4), of "take k p @ u"] nofrom show False by simp
  qed
qed

lemma sub_skip:
  assumes "\<And>i. i < length c \<Longrightarrow> match_here P (drop i c @ b) = None"
  shows "sub P T (c @ b) = c @ sub P T b"
  using assms
proof (induction c)
  case Nil
  show ?case by simp
next
  case (Cons x xs)
  from Cons.prems[of 0] have n: "match_here P (x # (xs @ b)) = None" by simp
  have "\<And>i. i < length xs \<Longrightarrow> match_here P (drop i xs @ b) = None"
    using Cons.prems[of "Suc _"] by simp
  from Cons.IH[OF this] sub_Cons_None[OF n] show ?case by simp
qed

lemma sub_around_clause:
  assumes shape: "\<And>s r g. match_here P s = Some (r, g) \<Longrightarrow> lit_shape s r"
    and ws: "\<forall>c \<in> set ws. is_space c" and q: "is_quote q" "is_quote q'"
    and p: "\<forall>c \<in> set p. \<not> is_quote c" and nojs: "\<not> ends_with p (str ''.js'')"
    and nofrom: "\<not> ends_in_from_space p"
  shows "sub P T (pre @ str ''from'' @ ws @ q # p @ q' # post)
     = sub P T pre @ str ''from'' @ ws @ q # p @ q' # sub P T post"
proof (induction pre rule: length_induct)
  case (1 pre)
  let ?c = "str ''from'' @ ws @ q # p @ [q']"
  let ?t = "str ''from'' @ ws @ q # p @ q' # post"
  let ?S = "sub P T"
  have nil: "match_here P [] = None"
  proof (cases "match_here P []")
    case (Some m)
    then have "match_here P [] = Some (fst m, snd m)" by simp
    from lit_shape_shorter[OF shape[OF this]] show ?thesis by simp
  qed simp
  show ?case
  proof (cases pre)
    case Nil
    have "\<And>i. i < length ?c \<Longrightarrow> match_here P (drop i ?c @ post) = None"
    proof -
      fix i assume i: "i < length ?c"
      show "match_here P (drop i ?c @ post) = None"
      proof (cases "match_here P (drop i ?c @ post)")
        case (Some m)
        then have "match_here P (drop i ?c @ post) = Some (fst m, snd m)" by simp
        from shape[OF this] no_lit_shape_inside_clause[OF ws q p nojs nofrom i]
        show ?thesis by blast
      qed simp
    qed
    from sub_skip[OF this] have "?S (?c @ post) = ?c @ ?S post" .
    moreover have "?S [] = []" by (rule sub_Nil_None[OF nil])
    ultimately show ?thesis using Nil by simp
  next
    case (Cons c cs)
    show ?thesis
    proof (cases "match_here P (pre @ ?t)")
      case None
      from match_here_local_None[OF None] have n: "match_here P pre = None" .
      have "?S (pre @ ?t) = c # ?S (cs @ ?t)"
        using sub_Cons_None[of P c "cs @ ?t" T] None Cons by simp
      moreover have "?S pre = c # ?S cs" using sub_Cons_None[of P c cs T] n Cons by simp
      moreover have "?S (cs @ ?t) = ?S cs @ str ''from'' @ ws @ q # p @ q' # ?S post"
        using 1 Cons by simp
      ultimately show ?thesis by simp
    next
      case (Some m)
      then have m: "match_here P (pre @ ?t) = Some (fst m, snd m)" by simp
      from shape[OF m] have sh: "lit_shape (pre @ ?t) (fst m)" .
      from lit_shape_before_clause[OF ws q p nojs refl sh] have "length ?t \<le> length (fst m)" .
      from match_here_local_Some[OF m this] obtain pre' where
        p': "fst m = pre' @ ?t" "match_here P pre = Some (pre', snd m)" by blast
      from lit_shape_shorter[OF sh] p'(1) have lt: "length pre' < length pre" by simp
      have "?S (pre @ ?t) = expand T (snd m) @ ?S (pre' @ ?t)"
        using sub_Some[OF m] p'(1) lt by simp
      moreover have "?S pre = expand T (snd m) @ ?S pre'"
        using sub_Some[OF p'(2)] lt by simp
      moreover have "?S (pre' @ ?t) = ?S pre' @ str ''from'' @ ws @ q # p @ q' # ?S post"
        using 1 lt by simp
      ultimately show ?thesis by simp
    qed
  qed
qed

lemma rewrite_around_clause:
  assumes ws: "\<forall>c \<in> set ws. is_space c" and q: "is_quote q" "is_quote q'"
    and p: "\<forall>c \<in> set p. \<not> is_quote c" and nojs: "\<not> ends_with p (str ''.js'')"
    and nofrom: "\<not> ends_in_from_space p"
  shows "rewrite (pre @ str ''from'' @ ws @ q # p @ q' # post)
     = rewrite pre @ str ''from'' @ ws @ q # p @ q' # rewrite post"
  unfolding rewrite_eq
  by (simp only: sub_around_clause[OF pattern1_lit_shape ws q p nojs nofrom]
      sub_around_clause[OF pattern2_lit_shape ws q p nojs nofrom])

lemma rewrite_around_js_clause:
  assumes ws: "ws \<noteq> []" "\<forall>c \<in> set ws. is_space c" and q: "is_quote q" "is_quote q'"
    and x: "\<forall>c \<in> set x. \<not> is_quote c" and nojs: "\<not> ends_with x (str ''.js'')"
    and nofrom: "\<not> ends_in_from_space x"
  shows "rewrite (pre @ str ''from'' @ ws @ q # x @ str ''.js'' @ q' # post)
     = rewrite pre @ str (''from '' @ [sq]) @ x @ str [sq] @ rewrite post"
proof -
  have s: "\<forall>c \<in> set [32]. is_space c" "is_quote 39" by (simp_all add: is_space_def is_quote_def)
  have 1: "sub pattern1 replacement1 (pre @ str ''from'' @ ws @ q # x @ str ''.js'' @ q' # post)
      = sub pattern1 replacement1 pre @ str ''from'' @ [32] @ 39 # x @ 39 # sub pattern1 replacement1 post"
    unfolding sub1_pattern_split[OF ws q x] by (simp add: str_def)
  show ?thesis unfolding rewrite_eq 1
    by (simp only: sub_around_clause[OF pattern2_lit_shape s(1) s(2) s(2) x nojs nofrom])
       (simp add: str_def sq_def)
qed

section \<open>Evaluation and the per-file operation\<close>

lemmas eval_defs = rewrite_def patterns_def pattern1_def pattern2_def replacement1_def replacement2_def
  seqs_def lit_def str_def match_here_def expand_def quotes_def is_space_def sq_def dq_def sub.simps
  occurs_def is_quote_def

lemma printable_ascii: "list_all (\<lambda>c. c < 128) line \<Longrightarrow> printable w line"
  unfolding printable_def by (induction line) auto

lemma printable_append: "printable w (a @ b) \<longleftrightarrow> printable w a \<and> printable w b"
  by (simp add: printable_def)

lemma print_printable: "printable w line \<Longrightarrow> print w line = Inr (w\<lparr>stdout := stdout w @ [line]\<rparr>)"
  by (simp add: print_def)

lemma print_unprintable: "\<not> printable w line \<Longrightarrow> print w line = Inl (encode_error w line)"
  by (simp add: print_def)

declare digits.simps [simp del]

lemma digits_ascii: "list_all (\<lambda>c. c < 128) (digits n)"
proof (induction n rule: digits.induct)
  case (1 n)
  show ?case
  proof (cases "n < 10")
    case True
    then show ?thesis by (subst digits.simps) simp
  next
    case False
    have "n mod 10 < 10" by simp
    then have "48 + n mod 10 < 128" by linarith
    with False 1 show ?thesis by (subst digits.simps) simp
  qed
qed

lemma show_int_ascii: "list_all (\<lambda>c. c < 128) (show_int i)"
  by (simp add: show_int_def digits_ascii)


lemma found_line_printable: "printable w (found_line n)"
  by (rule printable_ascii) (simp add: found_line_def show_int_ascii str_def)

lemma summary_line_printable: "printable w (summary_line n)"
  by (rule printable_ascii) (simp add: summary_line_def show_int_ascii str_def)

text \<open>What the handler and the per-file operation leave untouched.\<close>

lemma except_handler_frame:
  "writes (fst (except_handler w p e)) = writes w"
  "read_text (fst (except_handler w p e)) = read_text w"
  "stdout_encodes (fst (except_handler w p e)) = stdout_encodes w"
  by (simp_all add: except_handler_def print_def)

lemma except_handler_printable:
  "printable w (error_line p e) \<Longrightarrow>
     except_handler w p e = (w\<lparr>stdout := stdout w @ [error_line p e]\<rparr>, Inr False)"
  by (simp add: except_handler_def print_printable)

lemma except_handler_unprintable:
  "\<not> printable w (error_line p e) \<Longrightarrow>
     except_handler w p e = (w, Inl (encode_error w (error_line p e)))"
  by (simp add: except_handler_def print_unprintable)

lemma fix_read_fails:
  "read_text w p = Inl e \<Longrightarrow> fix_imports_in_file w p = except_handler w p e"
  by (simp add: fix_imports_in_file_def)

lemma fix_unchanged:
  "read_text w p = Inr c \<Longrightarrow> rewrite c = c \<Longrightarrow> fix_imports_in_file w p = (w, Inr False)"
  by (simp add: fix_imports_in_file_def)

lemma fix_changed:
  "read_text w p = Inr c \<Longrightarrow> rewrite c \<noteq> c \<Longrightarrow>
   fix_imports_in_file w p =
     (case write_text w p (rewrite c) of
        Inl (e, w') \<Rightarrow> except_handler w' p e
      | Inr w' \<Rightarrow>
          (case print w' (fixed_line p) of
             Inl e \<Rightarrow> except_handler w' p e
           | Inr w'' \<Rightarrow> (w'', Inr True)))"
  by (simp add: fix_imports_in_file_def Let_def)

lemma writes_fix_changed:
  assumes "read_text w p = Inr c" "rewrite c \<noteq> c"
  shows "writes (fst (fix_imports_in_file w p)) = writes w @ [(p, rewrite c)]"
  unfolding fix_changed[OF assms]
  by (simp add: write_text_def print_def except_handler_frame
      split: write_outcome.splits sum.splits prod.splits)

lemma read_text_fix_written:
  assumes "read_text w p = Inr c" "rewrite c \<noteq> c" "write_outcome w p = WriteOk"
  shows "read_text (fst (fix_imports_in_file w p)) p = Inr (rewrite c)"
  unfolding fix_changed[OF assms(1,2)] using assms(3)
  by (simp add: write_text_def print_def except_handler_frame split: sum.splits)

lemma fix_written_returns_True:
  assumes "read_text w p = Inr c" "rewrite c \<noteq> c" "write_outcome w p = WriteOk"
    "printable w (fixed_line p)"
  shows "snd (fix_imports_in_file w p) = Inr True"
proof -
  let ?w' = "w\<lparr>read_text := (read_text w)(p := Inr (rewrite c)), writes := writes w @ [(p, rewrite c)]\<rparr>"
  have "printable ?w' (fixed_line p)" using assms(4) by (simp add: printable_def)
  then show ?thesis
    unfolding fix_changed[OF assms(1,2)] using assms(3)
    by (simp add: write_text_def print_printable)
qed

lemma fix_all_count:
  "fix_all w ps n = (w', Inr m) \<Longrightarrow> n \<le> m \<and> m \<le> n + int (length ps)"
proof (induction ps arbitrary: w n)
  case Nil
  then show ?case by simp
next
  case (Cons p ps)
  obtain w1 r where f: "fix_imports_in_file w p = (w1, r)" by (cases "fix_imports_in_file w p")
  show ?case
  proof (cases r)
    case (Inl e)
    with f Cons.prems show ?thesis by simp
  next
    case (Inr b)
    with f Cons.prems have "fix_all w1 ps (if b then n + 1 else n) = (w', Inr m)" by simp
    from Cons.IH[OF this] show ?thesis by (auto split: if_splits)
  qed
qed

lemma printable_all: "(\<forall>c. stdout_encodes w c) \<Longrightarrow> printable w line"
  by (simp add: printable_def list_all_iff)

lemma fix_returns_when_encodable:
  assumes enc: "\<forall>c. stdout_encodes w c"
  shows "\<exists>w' b. fix_imports_in_file w p = (w', Inr b) \<and> (\<forall>c. stdout_encodes w' c)"
proof -
  have pr: "\<And>(v::world) line. stdout_encodes v = stdout_encodes w \<Longrightarrow> printable v line"
    using enc by (simp add: printable_def list_all_iff)
  have h: "\<And>(v::world) e. stdout_encodes v = stdout_encodes w \<Longrightarrow>
      \<exists>w' b. except_handler v p e = (w', Inr b) \<and> stdout_encodes w' = stdout_encodes w"
  proof -
    fix v :: world and e assume v: "stdout_encodes v = stdout_encodes w"
    have "except_handler v p e = (v\<lparr>stdout := stdout v @ [error_line p e]\<rparr>, Inr False)"
      by (rule except_handler_printable[OF pr[OF v]])
    moreover have "stdout_encodes (v\<lparr>stdout := stdout v @ [error_line p e]\<rparr>) = stdout_encodes w"
      using v by simp
    ultimately show "\<exists>w' b. except_handler v p e = (w', Inr b) \<and> stdout_encodes w' = stdout_encodes w"
      by blast
  qed
  have "\<exists>w' b. fix_imports_in_file w p = (w', Inr b) \<and> stdout_encodes w' = stdout_encodes w"
  proof (cases "read_text w p")
    case (Inl e)
    then have "fix_imports_in_file w p = except_handler w p e" by (rule fix_read_fails)
    with h[of w e] show ?thesis by auto
  next
    case (Inr c)
    show ?thesis
    proof (cases "rewrite c = c")
      case True
      with Inr have "fix_imports_in_file w p = (w, Inr False)" by (simp add: fix_unchanged)
      then show ?thesis by blast
    next
      case False
      show ?thesis
      proof (cases "write_outcome w p")
        case WriteOk
        let ?v = "w\<lparr>read_text := (read_text w)(p := Inr (rewrite c)), writes := writes w @ [(p, rewrite c)]\<rparr>"
        have v: "stdout_encodes ?v = stdout_encodes w" by simp
        have "fix_imports_in_file w p = (?v\<lparr>stdout := stdout ?v @ [fixed_line p]\<rparr>, Inr True)"
          unfolding fix_changed[OF Inr False] using WriteOk
          by (simp add: write_text_def print_printable[OF pr[OF v]])
        moreover have "stdout_encodes (?v\<lparr>stdout := stdout ?v @ [fixed_line p]\<rparr>) = stdout_encodes w"
          by simp
        ultimately show ?thesis by blast
      next
        case (OpenRaises e)
        let ?v = "w\<lparr>writes := writes w @ [(p, rewrite c)]\<rparr>"
        have v: "stdout_encodes ?v = stdout_encodes w" by simp
        have "fix_imports_in_file w p = except_handler ?v p e"
          unfolding fix_changed[OF Inr False] using OpenRaises by (simp add: write_text_def)
        with h[OF v, of e] show ?thesis by auto
      next
        case (WriteRaises e left)
        let ?v = "w\<lparr>read_text := (read_text w)(p := Inr left), writes := writes w @ [(p, rewrite c)]\<rparr>"
        have v: "stdout_encodes ?v = stdout_encodes w" by simp
        have "fix_imports_in_file w p = except_handler ?v p e"
          unfolding fix_changed[OF Inr False] using WriteRaises by (simp add: write_text_def)
        with h[OF v, of e] show ?thesis by auto
      qed
    qed
  qed
  then obtain w' b where "fix_imports_in_file w p = (w', Inr b)" "stdout_encodes w' = stdout_encodes w"
    by blast
  with enc have "fix_imports_in_file w p = (w', Inr b) \<and> (\<forall>c. stdout_encodes w' c)" by simp
  then show ?thesis by blast
qed

lemma fix_all_returns_when_encodable:
  "\<forall>c. stdout_encodes w c \<Longrightarrow> \<exists>w' m. fix_all w ps n = (w', Inr m) \<and> (\<forall>c. stdout_encodes w' c)"
proof (induction ps arbitrary: w n)
  case Nil
  then show ?case by simp
next
  case (Cons p ps)
  from fix_returns_when_encodable[OF Cons.prems, of p] obtain w1 b where
    f: "fix_imports_in_file w p = (w1, Inr b)" "\<forall>c. stdout_encodes w1 c" by blast
  from Cons.IH[OF f(2), of "if b then n + 1 else n"] f(1) show ?case by simp
qed

lemma cafe_unprintable: "\<not> printable (ascii_world\<lparr>stdout := out\<rparr>) (error_line cafe_ts e)"
  by (simp add: printable_def error_line_def cafe_ts_def ascii_world_def)

text \<open>What holds of a failing file when its error line can be printed.\<close>

lemma read_failure_writes_nothing:
  assumes "read_text w p = Inl e"
  shows "writes (fst (fix_imports_in_file w p)) = writes w"
    and "read_text (fst (fix_imports_in_file w p)) = read_text w"
    and "printable w (error_line p e) \<Longrightarrow>
          fix_imports_in_file w p = (w\<lparr>stdout := stdout w @ [error_line p e]\<rparr>, Inr False)"
    and "\<not> printable w (error_line p e) \<Longrightarrow>
          fix_imports_in_file w p = (w, Inl (encode_error w (error_line p e)))"
  using assms
  by (simp_all add: fix_read_fails except_handler_frame except_handler_printable
      except_handler_unprintable)

section \<open>One statement on its own\<close>

text \<open>
  A text with no quote character holds no occurrence of the first pattern, and a statement
  whose only literal ends in one \<open>.js\<close> is rewritten by stripping that suffix and
  re-quoting the literal.
\<close>

lemma no_occurrence_quote_free:
  assumes "\<forall>c \<in> set s. \<not> is_quote c"
  shows "\<not> occurs pattern1 s"
proof
  assume "occurs pattern1 s"
  then obtain i m where "match_here pattern1 (drop i s) = Some m"
    unfolding occurs_iff by auto
  then have "match_here pattern1 (drop i s) = Some (fst m, snd m)" by simp
  from match_here_pattern1_SomeD[OF this] obtain ws q x q' where
    d: "drop i s = str ''from'' @ ws @ q # x @ str ''.js'' @ q' # fst m" "is_quote q" by blast
  then have "q \<in> set (drop i s)" by simp
  then have "q \<in> set s" by (rule in_set_dropD)
  with assms d(2) show False by blast
qed

lemma statement_with_js_literal_rewritten:
  assumes pre: "\<forall>c \<in> set pre. \<not> is_quote c"
    and occ: "ws \<noteq> []" "\<forall>c \<in> set ws. is_space c" "is_quote q" "is_quote q'"
      "\<forall>c \<in> set x. \<not> is_quote c"
    and post: "\<forall>c \<in> set post. \<not> is_quote c"
    and once: "\<not> ends_with x (str ''.js'')"
  shows "rewrite (pre @ str ''from'' @ ws @ q # x @ str ''.js'' @ q' # post)
     = pre @ str (''from '' @ [sq]) @ x @ str [sq] @ post"
proof -
  let ?out = "pre @ str (''from '' @ [sq]) @ x @ str [sq] @ post"
  have 1: "sub pattern1 replacement1 pre = pre" "sub pattern1 replacement1 post = post"
    using pre post by (simp_all add: sub_no_occurrence no_occurrence_quote_free)
  have s1: "sub pattern1 replacement1 (pre @ str ''from'' @ ws @ q # x @ str ''.js'' @ q' # post) = ?out"
    unfolding sub1_pattern_split[OF occ] 1 by (simp add: str_def sq_def)
  have "\<forall>c \<in> set (pre @ str ''from ''). \<not> is_quote c"
    using pre by (auto simp: str_def is_quote_def)
  moreover have "is_quote 39" by (simp add: is_quote_def)
  ultimately have "\<not> occurs pattern1 ((pre @ str ''from '') @ 39 # x @ 39 # post)"
    using no_occurrence_single_literal occ(5) post once by blast
  then have "\<not> occurs pattern1 ?out" by (simp add: str_def sq_def)
  then have "rewrite ?out = ?out" by (rule rewrite_fixed_iff[THEN iffD2])
  moreover have "\<not> occurs pattern2 ?out"
    using \<open>\<not> occurs pattern1 ?out\<close> pattern2_needs_pattern1 by blast
  then have "sub pattern2 replacement2 ?out = ?out" by (rule sub_no_occurrence)
  then show ?thesis unfolding rewrite_eq s1 .
qed

lemma import_example:
  "rewrite (str (''import { A, B } from '' @ [dq] @ ''../bar.js'' @ [dq]))
     = str (''import { A, B } from '' @ [sq] @ ''../bar'' @ [sq])"
  by (simp add: eval_defs)

section \<open>The claims\<close>

subsection \<open>C1: rule 1 and the quote character\<close>

text \<open>
  C1, as stated, fails: rule 1 does not keep the quote character. The double-quoted
  \<^verbatim>\<open>from "./foo.js"\<close> becomes the single-quoted \<^verbatim>\<open>from './foo'\<close>, not
  \<^verbatim>\<open>from "./foo"\<close>, because the replacement template writes single quotes.
\<close>

theorem rule1_requotes:
  "sub pattern1 replacement1 (str (''from '' @ [dq] @ ''./foo.js'' @ [dq]))
     = str (''from '' @ [sq] @ ''./foo'' @ [sq])
   \<and> sub pattern1 replacement1 (str (''from '' @ [dq] @ ''./foo.js'' @ [dq]))
     \<noteq> str (''from '' @ [dq] @ ''./foo'' @ [dq])"
  by (simp add: eval_defs)

text \<open>
  C1, amended. Wherever the keyword \<open>from\<close>, whitespace and a quoted literal whose value
  ends in \<open>.js\<close> occur in a text, rule 1 replaces them by \<open>from\<close>, one space and the
  value without the trailing \<open>.js\<close> in single quotes, whatever the original quote
  characters and whitespace were; the text before and the text after the occurrence are
  rewritten on their own.
\<close>

theorem rule1_rewrites_each_occurrence:
  assumes "ws \<noteq> []" "\<forall>c \<in> set ws. is_space c" "is_quote q" "is_quote q'"
    "\<forall>c \<in> set x. \<not> is_quote c"
  shows "sub pattern1 replacement1 (pre @ str ''from'' @ ws @ q # x @ str ''.js'' @ q' # post)
     = sub pattern1 replacement1 pre @ str (''from '' @ [sq]) @ x @ str [sq]
         @ sub pattern1 replacement1 post"
  using sub1_pattern_split[OF assms, of pre post] by (simp add: str_def sq_def)

text \<open>
  The theorem at \<^verbatim>\<open>export * from  "./foo.js"; export * from x\<close>.
\<close>

theorem rule1_rewrites_each_occurrence_witness:
  "sub pattern1 replacement1
     (str ''export * '' @ str ''from'' @ str ''  '' @ of_char dq # str ''./foo'' @ str ''.js''
        @ of_char dq # str ''; export * from x'')
   = str ''export * '' @ str (''from '' @ [sq]) @ str ''./foo'' @ str [sq] @ str ''; export * from x''"
proof -
  have h: "str ''  '' \<noteq> []" "\<forall>c \<in> set (str ''  ''). is_space c" "is_quote (of_char dq)"
    "\<forall>c \<in> set (str ''./foo''). \<not> is_quote c"
    by (simp_all add: str_def is_space_def is_quote_def dq_def)
  have pre: "sub pattern1 replacement1 (str ''export * '') = str ''export * ''"
    by (simp add: eval_defs)
  have post: "sub pattern1 replacement1 (str ''; export * from x'') = str ''; export * from x''"
    by (simp add: eval_defs)
  from rule1_rewrites_each_occurrence[OF h(1,2,3,3,4), of "str ''export * ''" "str ''; export * from x''"]
  show ?thesis unfolding pre post .
qed

subsection \<open>C2: a file is written exactly when its content changed\<close>

text \<open>
  C2. A file is opened for writing exactly when it could be read and the rewritten content
  differs from the content read; what is written is the rewritten content, and after a
  successful write the file holds it, and the operation returns \<open>True\<close> once the
  line that reports the fix is printed. When the rewritten content equals the content
  read, processing the file changes nothing: no write, no output, result \<open>False\<close>.
  That is the case for every file whose content has no occurrence of either pattern: it
  is rewritten to itself.
\<close>

theorem written_iff_changed:
  "(writes (fst (fix_imports_in_file w p)) \<noteq> writes w
      \<longleftrightarrow> (\<exists>c. read_text w p = Inr c \<and> rewrite c \<noteq> c))
   \<and> (\<forall>c. read_text w p = Inr c \<and> rewrite c \<noteq> c \<longrightarrow>
          writes (fst (fix_imports_in_file w p)) = writes w @ [(p, rewrite c)])
   \<and> (\<forall>c. read_text w p = Inr c \<and> rewrite c \<noteq> c \<and> write_outcome w p = WriteOk \<longrightarrow>
          read_text (fst (fix_imports_in_file w p)) p = Inr (rewrite c)
          \<and> (printable w (fixed_line p) \<longrightarrow> snd (fix_imports_in_file w p) = Inr True))
   \<and> (\<forall>c. read_text w p = Inr c \<and> rewrite c = c \<longrightarrow> fix_imports_in_file w p = (w, Inr False))
   \<and> (\<forall>c. read_text w p = Inr c \<and> \<not> occurs pattern1 c \<and> \<not> occurs pattern2 c \<longrightarrow>
          rewrite c = c \<and> fix_imports_in_file w p = (w, Inr False))"
proof (intro conjI allI impI)
  show "writes (fst (fix_imports_in_file w p)) \<noteq> writes w
      \<longleftrightarrow> (\<exists>c. read_text w p = Inr c \<and> rewrite c \<noteq> c)"
  proof (cases "read_text w p")
    case (Inl e)
    then show ?thesis by (simp add: fix_read_fails except_handler_frame)
  next
    case (Inr c)
    show ?thesis
    proof (cases "rewrite c = c")
      case True
      with Inr show ?thesis by (simp add: fix_unchanged)
    next
      case False
      with Inr show ?thesis by (simp add: writes_fix_changed)
    qed
  qed
next
  fix c assume "read_text w p = Inr c \<and> rewrite c \<noteq> c"
  then show "writes (fst (fix_imports_in_file w p)) = writes w @ [(p, rewrite c)]"
    by (simp add: writes_fix_changed)
next
  fix c assume a: "read_text w p = Inr c \<and> rewrite c \<noteq> c \<and> write_outcome w p = WriteOk"
  then show "read_text (fst (fix_imports_in_file w p)) p = Inr (rewrite c)"
    by (simp add: read_text_fix_written)
  assume "printable w (fixed_line p)"
  with a show "snd (fix_imports_in_file w p) = Inr True"
    by (simp add: fix_written_returns_True)
next
  fix c assume "read_text w p = Inr c \<and> rewrite c = c"
  then show "fix_imports_in_file w p = (w, Inr False)" by (simp add: fix_unchanged)
next
  fix c assume a: "read_text w p = Inr c \<and> \<not> occurs pattern1 c \<and> \<not> occurs pattern2 c"
  then have r: "rewrite c = c" by (simp add: rewrite_fixed_iff)
  then show "rewrite c = c" .
  from a r show "fix_imports_in_file w p = (w, Inr False)" by (simp add: fix_unchanged)
qed

text \<open>
  The theorem at the file \<open>b.ts\<close> of the example world, which has nothing to fix, and at
  \<open>a.ts\<close>, which has a fixable import.
\<close>

theorem written_iff_changed_witness:
  "read_text example_world (str ''b.ts'') = Inr (str ''let x = 1;'')
   \<and> \<not> occurs pattern1 (str ''let x = 1;'') \<and> \<not> occurs pattern2 (str ''let x = 1;'')
   \<and> fix_imports_in_file example_world (str ''b.ts'') = (example_world, Inr False)
   \<and> read_text example_world (str ''a.ts'') = Inr (str (''from '' @ [dq] @ ''./foo.js'' @ [dq]))
   \<and> writes (fst (fix_imports_in_file example_world (str ''a.ts'')))
       = [(str ''a.ts'', str (''from '' @ [sq] @ ''./foo'' @ [sq]))]
   \<and> read_text (fst (fix_imports_in_file example_world (str ''a.ts''))) (str ''a.ts'')
       = Inr (str (''from '' @ [sq] @ ''./foo'' @ [sq]))
   \<and> snd (fix_imports_in_file example_world (str ''a.ts'')) = Inr True"
proof -
  have b: "read_text example_world (str ''b.ts'') = Inr (str ''let x = 1;'')"
    by (simp add: example_world_def str_def)
  have n: "\<not> occurs pattern1 (str ''let x = 1;'')" "\<not> occurs pattern2 (str ''let x = 1;'')"
    by (simp_all add: eval_defs)
  have a: "read_text example_world (str ''a.ts'') = Inr (str (''from '' @ [dq] @ ''./foo.js'' @ [dq]))"
    by (simp add: example_world_def str_def)
  have r: "rewrite (str (''from '' @ [dq] @ ''./foo.js'' @ [dq])) = str (''from '' @ [sq] @ ''./foo'' @ [sq])"
    by (simp add: eval_defs)
  then have ne: "rewrite (str (''from '' @ [dq] @ ''./foo.js'' @ [dq])) \<noteq> str (''from '' @ [dq] @ ''./foo.js'' @ [dq])"
    by (simp add: str_def sq_def dq_def)
  have w0: "writes example_world = []" by (simp add: example_world_def)
  have ok: "write_outcome example_world (str ''a.ts'') = WriteOk"
    by (simp add: example_world_def str_def)
  have pr: "printable example_world (fixed_line (str ''a.ts''))"
    by (simp add: printable_def example_world_def list_all_iff)
  note t = written_iff_changed[of example_world "str ''a.ts''"]
  from written_iff_changed[of example_world "str ''b.ts''"] b n
  have 1: "fix_imports_in_file example_world (str ''b.ts'') = (example_world, Inr False)" by blast
  from t a ne
  have "writes (fst (fix_imports_in_file example_world (str ''a.ts'')))
     = writes example_world @ [(str ''a.ts'', rewrite (str (''from '' @ [dq] @ ''./foo.js'' @ [dq])))]"
    by blast
  with r w0 have 2: "writes (fst (fix_imports_in_file example_world (str ''a.ts'')))
       = [(str ''a.ts'', str (''from '' @ [sq] @ ''./foo'' @ [sq]))]" by simp
  from t a ne ok
  have "read_text (fst (fix_imports_in_file example_world (str ''a.ts''))) (str ''a.ts'')
     = Inr (rewrite (str (''from '' @ [dq] @ ''./foo.js'' @ [dq])))"
    by blast
  with r have 3: "read_text (fst (fix_imports_in_file example_world (str ''a.ts''))) (str ''a.ts'')
       = Inr (str (''from '' @ [sq] @ ''./foo'' @ [sq]))" by simp
  from t a ne ok pr
  have 4: "snd (fix_imports_in_file example_world (str ''a.ts'')) = Inr True" by blast
  from b n 1 a 2 3 4 show ?thesis by blast
qed

subsection \<open>C3: idempotence\<close>

text \<open>
  C3, as stated, fails: on \<^verbatim>\<open>from "a.js.js"\<close> one pass gives \<^verbatim>\<open>from 'a.js'\<close> and a
  second pass gives \<^verbatim>\<open>from 'a'\<close>.
\<close>

theorem rewrite_twice_differs:
  "rewrite (rewrite (str (''from '' @ [dq] @ ''a.js.js'' @ [dq])))
     \<noteq> rewrite (str (''from '' @ [dq] @ ''a.js.js'' @ [dq]))"
  by (simp add: eval_defs)

text \<open>
  C3, amended. A second pass changes nothing exactly when the output of the first pass
  holds no occurrence of the first pattern (\<open>from\<close>, whitespace, a quoted literal ending
  in \<open>.js\<close>): for those inputs, and only for those, rewriting twice is rewriting once.
\<close>

theorem rewrite_idempotent_iff:
  "rewrite (rewrite s) = rewrite s \<longleftrightarrow> \<not> occurs pattern1 (rewrite s)"
  by (rule rewrite_fixed_iff)

text \<open>
  The theorem at \<^verbatim>\<open>import { A, B } from "../bar.js"\<close>.
\<close>

theorem rewrite_idempotent_iff_witness:
  "\<not> occurs pattern1 (rewrite (str (''import { A, B } from '' @ [dq] @ ''../bar.js'' @ [dq])))
   \<and> rewrite (rewrite (str (''import { A, B } from '' @ [dq] @ ''../bar.js'' @ [dq])))
       = rewrite (str (''import { A, B } from '' @ [dq] @ ''../bar.js'' @ [dq]))"
proof -
  let ?s = "str (''import { A, B } from '' @ [dq] @ ''../bar.js'' @ [dq])"
  have n: "\<not> occurs pattern1 (rewrite ?s)" by (simp add: eval_defs)
  with rewrite_idempotent_iff[of ?s] show ?thesis by blast
qed

subsection \<open>C4: the import form\<close>

text \<open>
  C4 at the input \<^verbatim>\<open>import x from "./a.js.js"\<close>. The claim asks for
  \<^verbatim>\<open>import x from './a.js'\<close>; rule 1 produces exactly that, and then rule 2 matches the
  output of rule 1 and strips a second suffix. The same literal after \<open>export * from\<close>,
  where rule 2 does not apply, loses one suffix only.
\<close>

theorem import_of_double_suffix_loses_both:
  "rewrite (str (''import x from '' @ [dq] @ ''./a.js.js'' @ [dq]))
     = str (''import x from '' @ [sq] @ ''./a'' @ [sq])
   \<and> rewrite (str (''export * from '' @ [dq] @ ''./a.js.js'' @ [dq]))
     = str (''export * from '' @ [sq] @ ''./a.js'' @ [sq])"
  by (simp add: eval_defs)

subsection \<open>C5: paths that do not end in .js\<close>

text \<open>
  C5, as stated, fails. The double-quoted path \<^verbatim>\<open>"./a.js'b"\<close> does not end in
  \<open>.js\<close>, yet \<^verbatim>\<open>from "./a.js'b"\<close> becomes \<^verbatim>\<open>from './a'b"\<close>: the pattern closes a
  literal at either quote character, so the \<open>.js\<close> in the middle of the value is
  removed. And the path of \<^verbatim>\<open>import a from './a from<TAB>' /* x.js'\<close>, which ends in
  \<open>from\<close> and a tab, is altered: its closing quote is taken for the opening quote of a
  literal that ends at \<^verbatim>\<open>x.js'\<close>.
\<close>

theorem quoted_path_with_quote_or_from_altered:
  "\<not> ends_with (str (''./a.js'' @ [sq] @ ''b'')) (str ''.js'')
   \<and> rewrite (str (''from '' @ [dq] @ ''./a.js'' @ [sq] @ ''b'' @ [dq]))
       = str (''from '' @ [sq] @ ''./a'' @ [sq] @ ''b'' @ [dq])
   \<and> \<not> ends_with (str ''./a from'' @ [9]) (str ''.js'')
   \<and> rewrite (str (''import a from '' @ [sq] @ ''./a from'') @ 9 # str ([sq] @ '' /* x.js'' @ [sq]))
       = str (''import a from '' @ [sq] @ ''./a from '' @ [sq] @ '' /* x'' @ [sq])"
  by (simp add: eval_defs ends_with_def)

text \<open>
  C5, amended. For every quoted module path whose value holds no quote character, does not
  end in \<open>.js\<close> and does not end in the word \<open>from\<close> followed by whitespace, the
  \<open>from\<close> clause that carries it is left unchanged by the rewriter wherever it stands
  in a text, however often \<open>.js\<close> occurs inside the path; the text before and the text
  after the clause are rewritten on their own. When the value is such a path followed by
  one \<open>.js\<close>, exactly that trailing \<open>.js\<close> is removed and no other part of the path
  is altered (the literal is re-quoted and the whitespace after \<open>from\<close> becomes one
  space). Values that end in \<open>.js.js\<close> are left out here (see C4).
\<close>

theorem from_clause_in_any_text:
  assumes "\<forall>c \<in> set ws. is_space c" "is_quote q" "is_quote q'"
    "\<forall>c \<in> set p. \<not> is_quote c" "\<not> ends_with p (str ''.js'')" "\<not> ends_in_from_space p"
  shows "rewrite (pre @ str ''from'' @ ws @ q # p @ q' # post)
       = rewrite pre @ str ''from'' @ ws @ q # p @ q' # rewrite post
     \<and> (ws \<noteq> [] \<longrightarrow>
          rewrite (pre @ str ''from'' @ ws @ q # p @ str ''.js'' @ q' # post)
            = rewrite pre @ str (''from '' @ [sq]) @ p @ str [sq] @ rewrite post)"
  using rewrite_around_clause[OF assms] rewrite_around_js_clause[OF _ assms] by blast

text \<open>
  The theorem at \<^verbatim>\<open>from './js-utils'\<close>, and at the path \<open>./js/utils\<close> and the value
  \<open>./js/utils.js\<close> in front of a second import that is rewritten too.
\<close>

theorem from_clause_in_any_text_witness:
  "rewrite (str (''from '' @ [sq] @ ''./js-utils'' @ [sq])) = str (''from '' @ [sq] @ ''./js-utils'' @ [sq])
   \<and> rewrite (str (''import { f } from '' @ [dq] @ ''./js/utils'' @ [dq]
                 @ ''; import g from '' @ [dq] @ ''./g.js'' @ [dq]))
      = str (''import { f } from '' @ [dq] @ ''./js/utils'' @ [dq]
                 @ ''; import g from '' @ [sq] @ ''./g'' @ [sq])
   \<and> rewrite (str (''import { f } from '' @ [dq] @ ''./js/utils.js'' @ [dq]
                 @ ''; import g from '' @ [dq] @ ''./g.js'' @ [dq]))
      = str (''import { f } from '' @ [sq] @ ''./js/utils'' @ [sq]
                 @ ''; import g from '' @ [sq] @ ''./g'' @ [sq])"
proof -
  have s: "\<forall>c \<in> set (str '' ''). is_space c" "str '' '' \<noteq> []" "is_quote (of_char sq)" "is_quote (of_char dq)"
    by (simp_all add: str_def is_space_def is_quote_def sq_def dq_def)
  have 1: "\<forall>c \<in> set (str ''./js-utils''). \<not> is_quote c" "\<not> ends_with (str ''./js-utils'') (str ''.js'')"
    "\<not> ends_in_from_space (str ''./js-utils'')"
    by (simp_all add: str_def is_space_def is_quote_def ends_with_def ends_in_from_space_def)
  have 2: "\<forall>c \<in> set (str ''./js/utils''). \<not> is_quote c" "\<not> ends_with (str ''./js/utils'') (str ''.js'')"
    "\<not> ends_in_from_space (str ''./js/utils'')"
    by (simp_all add: str_def is_space_def is_quote_def ends_with_def ends_in_from_space_def)
  have r0: "rewrite [] = []" by (simp add: eval_defs)
  have r1: "rewrite (str ''import { f } '') = str ''import { f } ''" by (simp add: eval_defs)
  have r2: "rewrite (str (''; import g from '' @ [dq] @ ''./g.js'' @ [dq]))
      = str (''; import g from '' @ [sq] @ ''./g'' @ [sq])" by (simp add: eval_defs)
  from from_clause_in_any_text[OF s(1) s(3) s(3) 1, of "[]" "[]"]
  have a: "rewrite (str (''from '' @ [sq] @ ''./js-utils'' @ [sq])) = str (''from '' @ [sq] @ ''./js-utils'' @ [sq])"
    unfolding r0 by (simp add: str_def)
  note t = from_clause_in_any_text[OF s(1) s(4) s(4) 2, of "str ''import { f } ''"
      "str (''; import g from '' @ [dq] @ ''./g.js'' @ [dq])"]
  from t have b: "rewrite (str (''import { f } from '' @ [dq] @ ''./js/utils'' @ [dq]
                 @ ''; import g from '' @ [dq] @ ''./g.js'' @ [dq]))
      = str (''import { f } from '' @ [dq] @ ''./js/utils'' @ [dq]
                 @ ''; import g from '' @ [sq] @ ''./g'' @ [sq])"
    unfolding r1 r2 by (simp add: str_def)
  from t s(2) have c: "rewrite (str (''import { f } from '' @ [dq] @ ''./js/utils.js'' @ [dq]
                 @ ''; import g from '' @ [dq] @ ''./g.js'' @ [dq]))
      = str (''import { f } from '' @ [sq] @ ''./js/utils'' @ [sq]
                 @ ''; import g from '' @ [sq] @ ''./g'' @ [sq])"
    unfolding r1 r2 by (simp add: str_def)
  from a b c show ?thesis by blast
qed

subsection \<open>C6: a failing file and the rest of the run\<close>

text \<open>
  C6 at a file that cannot be read and whose name the standard output cannot encode: the
  file \<open>caf?.ts\<close> of the ASCII world, with the code point 233 in its name. The read
  raises, the handler is entered, and the handler's own \<open>print\<close> of the line that names
  the file raises. That exception leaves \<open>fix_imports_in_file\<close> and ends the run: only
  the line with the number of files found is printed, the second file \<open>a.ts\<close> is never
  processed and no summary is printed.
\<close>

theorem failure_report_ends_the_run:
  "read_text ascii_world cafe_ts = Inl (str ''Permission denied'')
   \<and> fix_imports_in_file ascii_world cafe_ts
       = (ascii_world, Inl (str ''ordinal not in range(128)''))
   \<and> find_ts_files ascii_world = [cafe_ts, str ''a.ts'']
   \<and> main ascii_world
       = (ascii_world\<lparr>stdout := [found_line 2]\<rparr>, Inl (str ''ordinal not in range(128)''))"
proof -
  have r: "\<And>out. read_text (ascii_world\<lparr>stdout := out\<rparr>) cafe_ts = Inl (str ''Permission denied'')"
    by (simp add: ascii_world_def cafe_ts_def str_def)
  have e: "\<And>line. encode_error ascii_world line = str ''ordinal not in range(128)''"
    by (simp add: ascii_world_def)
  have f: "\<And>out. fix_imports_in_file (ascii_world\<lparr>stdout := out\<rparr>) cafe_ts
      = (ascii_world\<lparr>stdout := out\<rparr>, Inl (str ''ordinal not in range(128)''))"
    by (simp add: fix_read_fails[OF r] except_handler_unprintable[OF cafe_unprintable] e)
  have s: "ascii_world\<lparr>stdout := []\<rparr> = ascii_world" by (simp add: ascii_world_def)
  have l: "find_ts_files ascii_world = [cafe_ts, str ''a.ts'']"
    by (simp add: find_ts_files_def ascii_world_def str_def)
  have "root_exists ascii_world" "stdout ascii_world = []" by (simp_all add: ascii_world_def)
  then have m: "main ascii_world
       = (ascii_world\<lparr>stdout := [found_line 2]\<rparr>, Inl (str ''ordinal not in range(128)''))"
    by (simp add: main_def l print_printable[OF found_line_printable] f)
  from r[of "[]"] f[of "[]"] l m show ?thesis unfolding s by simp
qed

subsection \<open>C7: a missing root\<close>




subsection \<open>C8: a file that cannot be read\<close>

text \<open>
  C8 at the same file of the ASCII world. No file is opened for writing, as the claim says,
  but the operation does not return \<open>False\<close>: the handler's \<open>print\<close> raises and the
  exception leaves the function.
\<close>

theorem unreadable_file_can_raise:
  "read_text ascii_world cafe_ts = Inl (str ''Permission denied'')
   \<and> snd (fix_imports_in_file ascii_world cafe_ts) = Inl (str ''ordinal not in range(128)'')
   \<and> snd (fix_imports_in_file ascii_world cafe_ts) \<noteq> Inr False
   \<and> writes (fst (fix_imports_in_file ascii_world cafe_ts)) = []"
proof -
  have r: "read_text ascii_world cafe_ts = Inl (str ''Permission denied'')"
    by (simp add: ascii_world_def cafe_ts_def str_def)
  have s: "ascii_world\<lparr>stdout := []\<rparr> = ascii_world" by (simp add: ascii_world_def)
  have u: "\<not> printable ascii_world (error_line cafe_ts (str ''Permission denied''))"
    using cafe_unprintable[of "[]"] unfolding s .
  have e: "\<And>line. encode_error ascii_world line = str ''ordinal not in range(128)''"
    by (simp add: ascii_world_def)
  have "fix_imports_in_file ascii_world cafe_ts
      = (ascii_world, Inl (str ''ordinal not in range(128)''))"
    by (simp add: fix_read_fails[OF r] except_handler_unprintable[OF u] e)
  moreover have "writes ascii_world = []" by (simp add: ascii_world_def)
  ultimately show ?thesis using r by simp
qed

subsection \<open>C9: the output is never longer\<close>

text \<open>
  C9. The output of the rewriter is never longer than its input, and an output that differs
  from the input is strictly shorter.
\<close>

theorem rewrite_never_longer:
  "length (rewrite s) \<le> length s \<and> (rewrite s \<noteq> s \<longrightarrow> length (rewrite s) < length s)"
  using rewrite_same_or_shorter[of s] by auto

text \<open>
  The theorem at \<^verbatim>\<open>from "./foo.js"\<close>: fifteen characters become twelve.
\<close>

theorem rewrite_never_longer_witness:
  "rewrite (str (''from '' @ [dq] @ ''./foo.js'' @ [dq])) \<noteq> str (''from '' @ [dq] @ ''./foo.js'' @ [dq])
   \<and> length (rewrite (str (''from '' @ [dq] @ ''./foo.js'' @ [dq]))) = 12
   \<and> length (str (''from '' @ [dq] @ ''./foo.js'' @ [dq])) = 15"
proof -
  let ?s = "str (''from '' @ [dq] @ ''./foo.js'' @ [dq])"
  have ne: "rewrite ?s \<noteq> ?s" by (simp add: eval_defs)
  with rewrite_never_longer[of ?s] have "length (rewrite ?s) < length ?s" by blast
  moreover have "length (rewrite ?s) = 12" "length ?s = 15" by (simp_all add: eval_defs)
  ultimately show ?thesis using ne by blast
qed

subsection \<open>C10: the fixed count\<close>

text \<open>
  C10. When the root exists, a run that reaches its end reports in its last line a fixed
  count that is at least zero and at most the number of files found; and the run reaches
  its end whenever the standard output encodes every code point.
\<close>

theorem fixed_count_bounded:
  assumes "root_exists w"
  shows "(\<forall>w'. main w = (w', Inr ()) \<longrightarrow>
           (\<exists>n. last (stdout w') = summary_line n \<and> 0 \<le> n \<and> n \<le> int (length (find_ts_files w))))
     \<and> ((\<forall>c. stdout_encodes w c) \<longrightarrow> (\<exists>w'. main w = (w', Inr ())))"
proof (intro conjI allI impI)
  let ?w1 = "w\<lparr>stdout := stdout w @ [found_line (int (length (find_ts_files w)))]\<rparr>"
  have m: "main w = (case fix_all ?w1 (find_ts_files w) 0 of
      (w2, Inl e) \<Rightarrow> (w2, Inl e)
    | (w2, Inr fixed_count) \<Rightarrow> (w2\<lparr>stdout := stdout w2 @ [summary_line fixed_count]\<rparr>, Inr ()))"
    using assms
    by (simp add: main_def Let_def print_printable[OF found_line_printable]
        print_printable[OF summary_line_printable] split: prod.splits sum.splits)
  {
    fix w' assume r: "main w = (w', Inr ())"
    obtain w2 res where f: "fix_all ?w1 (find_ts_files w) 0 = (w2, res)"
      by (cases "fix_all ?w1 (find_ts_files w) 0")
    show "\<exists>n. last (stdout w') = summary_line n \<and> 0 \<le> n \<and> n \<le> int (length (find_ts_files w))"
    proof (cases res)
      case (Inl e)
      with m f r show ?thesis by simp
    next
      case (Inr n)
      with m f r have "w' = w2\<lparr>stdout := stdout w2 @ [summary_line n]\<rparr>" by simp
      then have "last (stdout w') = summary_line n" by simp
      moreover from fix_all_count[of ?w1 "find_ts_files w" 0 w2 n] f Inr
      have "0 \<le> n \<and> n \<le> int (length (find_ts_files w))" by simp
      ultimately show ?thesis by blast
    qed
  }
  {
    assume "\<forall>c. stdout_encodes w c"
    then have "\<forall>c. stdout_encodes ?w1 c" by simp
    from fix_all_returns_when_encodable[OF this, of "find_ts_files w" 0] obtain w2 n where
      "fix_all ?w1 (find_ts_files w) 0 = (w2, Inr n)" by blast
    with m show "\<exists>w'. main w = (w', Inr ())" by simp
  }
qed

text \<open>
  The theorem at the example world: four files found, one fixed.
\<close>

theorem fixed_count_bounded_witness:
  "root_exists example_world \<and> length (find_ts_files example_world) = 4
   \<and> snd (main example_world) = Inr ()
   \<and> last (stdout (fst (main example_world))) = summary_line 1"
proof -
  have h: "root_exists example_world" by (simp add: example_world_def)
  have enc: "\<forall>c. stdout_encodes example_world c" by (simp add: example_world_def)
  from fixed_count_bounded[OF h] enc obtain w' where
    r: "main example_world = (w', Inr ())" by blast
  have l: "length (find_ts_files example_world) = 4"
    by (simp add: find_ts_files_def example_world_def str_def)
  have "last (stdout (fst (main example_world))) = summary_line 1"
    by (simp add: main_def find_ts_files_def fix_imports_in_file_def example_world_def write_text_def
        print_def printable_def except_handler_def Let_def list_all_iff eval_defs)
  with h l r show ?thesis by simp
qed

end
